theory Spec2Isabelle
  imports Main "HOL-Library.Sublist"
begin

section \<open>Python string primitives used by update_icon.py\<close>

text \<open>
  A Python \<open>str\<close> is modelled as a \<open>string\<close>, a list of 8-bit characters read as code
  points below 256. The apostrophe and the double quote are written \<open>CHR 0x27\<close> and
  \<open>CHR 0x22\<close>.
\<close>

abbreviation (input) sq :: char where
  "sq \<equiv> CHR 0x27"

abbreviation (input) dq :: char where
  "dq \<equiv> CHR 0x22"

text \<open>
  \<open>str.isspace\<close> on one character: tab, line feed, vertical tab, form feed, carriage
  return, the separators 0x1c to 0x1f, space, next line (0x85) and no-break space (0xa0).
\<close>

definition py_isspace :: "char \<Rightarrow> bool" where
  "py_isspace c =
     (let n = (of_char c :: nat)
      in (9 \<le> n \<and> n \<le> 13) \<or> (28 \<le> n \<and> n \<le> 32) \<or> n = 133 \<or> n = 160)"

text \<open>\<open>str.strip()\<close> without argument: whitespace is dropped at both ends.\<close>

definition strip :: "string \<Rightarrow> string" where
  "strip s = rev (dropWhile py_isspace (rev (dropWhile py_isspace s)))"

text \<open>
  \<open>str.replace(old, new)\<close>: the text is scanned from the left; where \<open>old\<close> starts, \<open>new\<close>
  is emitted and the scan goes on behind the match; elsewhere the character is copied.
  With an empty \<open>old\<close> Python puts \<open>new\<close> before every character and at the end.
\<close>

fun ins_between :: "string \<Rightarrow> string \<Rightarrow> string" where
  "ins_between new [] = new"
| "ins_between new (c # cs) = new @ c # ins_between new cs"

fun replace :: "string \<Rightarrow> string \<Rightarrow> string \<Rightarrow> string" where
  "replace [] new s = ins_between new s"
| "replace (a # as) new [] = []"
| "replace (a # as) new (c # cs) =
     (if prefix (a # as) (c # cs)
      then new @ replace (a # as) new (drop (length as) cs)
      else c # replace (a # as) new cs)"

text \<open>The number of positions of a text at which a given string starts.\<close>

fun count_occ :: "string \<Rightarrow> string \<Rightarrow> nat" where
  "count_occ t [] = (if t = [] then 1 else 0)"
| "count_occ t (c # cs) = (if prefix t (c # cs) then 1 else 0) + count_occ t cs"

section \<open>The script\<close>

definition icons_path :: string where
  "icons_path = ''/Users/isaiahcalvo/Desktop/Survey/src/Icons.jsx''"

definition b64_path :: string where
  "b64_path = ''/Users/isaiahcalvo/Desktop/Survey/temp_highlighter_b64.txt''"

definition data_uri :: "string \<Rightarrow> string" where
  "data_uri b64_content = ''data:image/png;base64,'' @ b64_content"

definition target_mask :: string where
  "target_mask =
     ''maskImage: '' @ [sq] @ ''url('' @ [dq] @ ''/highlighter-icon.png'' @ [dq] @ '')'' @ [sq]"

definition target_webkit :: string where
  "target_webkit =
     ''WebkitMaskImage: '' @ [sq] @ ''url('' @ [dq] @ ''/highlighter-icon.png'' @ [dq] @ '')'' @ [sq]"

definition replacement_mask :: "string \<Rightarrow> string" where
  "replacement_mask uri =
     ''maskImage: '' @ [sq] @ ''url('' @ [dq] @ uri @ [dq] @ '')'' @ [sq]"

definition replacement_webkit :: "string \<Rightarrow> string" where
  "replacement_webkit uri =
     ''WebkitMaskImage: '' @ [sq] @ ''url('' @ [dq] @ uri @ [dq] @ '')'' @ [sq]"

text \<open>The two \<open>replace\<close> calls, in the order of the script.\<close>

definition new_content :: "string \<Rightarrow> string \<Rightarrow> string" where
  "new_content uri content =
     replace target_webkit (replacement_webkit uri)
       (replace target_mask (replacement_mask uri) content)"

subsection \<open>Files and output\<close>

text \<open>
  A path names a file through a directory entry; two paths may name the same file (a
  symbolic or a hard link). A path without an entry does not exist. What an entry names is
  a directory or a regular file, which has a text unless its bytes do not decode, and
  which may or may not be opened for reading and for writing. \<open>space\<close> is the number of
  characters the device still takes (\<open>None\<close>: no limit). The text of a file is what
  \<open>f.read()\<close> returns for it.
\<close>

type_synonym path = string

type_synonym file_id = nat

datatype fnode =
    Directory
  | File "string option" bool bool

datatype io_error =
    FileNotFoundError
  | IsADirectoryError
  | PermissionError
  | UnicodeDecodeError
  | OSError

record filesystem =
  entries :: "path \<rightharpoonup> file_id"
  store :: "file_id \<Rightarrow> fnode"
  space :: "nat option"

text \<open>\<open>open(p, 'r')\<close> and \<open>f.read()\<close>: the text, or the exception raised.\<close>

definition text_at :: "filesystem \<Rightarrow> path \<Rightarrow> io_error + string" where
  "text_at fs p =
     (case entries fs p of
        None \<Rightarrow> Inl FileNotFoundError
      | Some i \<Rightarrow>
          (case store fs i of
             Directory \<Rightarrow> Inl IsADirectoryError
           | File t can_read can_write \<Rightarrow>
               if \<not> can_read then Inl PermissionError
               else (case t of None \<Rightarrow> Inl UnicodeDecodeError | Some s \<Rightarrow> Inr s)))"

text \<open>
  \<open>open(p, 'w')\<close>, \<open>f.write(s)\<close> and the closing of the file: the exception raised, if
  any, and the file system afterwards. Opening truncates the file; when the device takes
  fewer characters than \<open>s\<close> has, the file is left with the part that was stored. The
  file written is the one the path names, whatever other paths name it too. Python would
  create a file for a path without an entry; the script only writes to a path it has just
  read, and the model raises there as Python does when the directory is missing.
\<close>

definition put_text :: "filesystem \<Rightarrow> path \<Rightarrow> string \<Rightarrow> io_error option \<times> filesystem" where
  "put_text fs p s =
     (case entries fs p of
        None \<Rightarrow> (Some FileNotFoundError, fs)
      | Some i \<Rightarrow>
          (case store fs i of
             Directory \<Rightarrow> (Some IsADirectoryError, fs)
           | File t can_read can_write \<Rightarrow>
               if \<not> can_write then (Some PermissionError, fs)
               else
                 (case space fs of
                    None \<Rightarrow>
                      (None, fs\<lparr>store := (store fs)(i := File (Some s) can_read can_write)\<rparr>)
                  | Some n \<Rightarrow>
                      if length s \<le> n
                      then (None,
                            fs\<lparr>store := (store fs)(i := File (Some s) can_read can_write),
                               space := Some (n - length s)\<rparr>)
                      else (Some OSError,
                            fs\<lparr>store := (store fs)(i := File (Some (take n s)) can_read can_write),
                               space := Some 0\<rparr>))))"

text \<open>
  Every access to the file system, every \<open>print\<close> and the traceback of an uncaught
  exception are appended to a trace.
\<close>

datatype event =
    PathExists path
  | Read path
  | Write path string
  | Print string
  | Traceback io_error

record world =
  files :: filesystem
  trace :: "event list"

definition path_exists :: "path \<Rightarrow> world \<Rightarrow> bool \<times> world" where
  "path_exists p w = (entries (files w) p \<noteq> None, w\<lparr>trace := trace w @ [PathExists p]\<rparr>)"

definition read_text :: "path \<Rightarrow> world \<Rightarrow> (io_error + string) \<times> world" where
  "read_text p w = (text_at (files w) p, w\<lparr>trace := trace w @ [Read p]\<rparr>)"

definition write_text :: "path \<Rightarrow> string \<Rightarrow> world \<Rightarrow> io_error option \<times> world" where
  "write_text p s w =
     (case put_text (files w) p s of
        (e, fs') \<Rightarrow> (e, w\<lparr>files := fs', trace := trace w @ [Write p s]\<rparr>))"

definition print :: "string \<Rightarrow> world \<Rightarrow> world" where
  "print s w = w\<lparr>trace := trace w @ [Print s]\<rparr>"

text \<open>An exception that nothing catches ends the process with a traceback and status 1.\<close>

definition uncaught :: "io_error \<Rightarrow> world \<Rightarrow> nat \<times> world" where
  "uncaught e w = (1, w\<lparr>trace := trace w @ [Traceback e]\<rparr>)"

definition error_message :: "path \<Rightarrow> string" where
  "error_message p = ''Error: '' @ p @ '' not found''"

definition warning_message :: string where
  "warning_message = ''Warning: No changes made. Targets might not match.''"

definition success_message :: string where
  "success_message = ''Successfully updated Icons.jsx with base64 icon.''"

text \<open>The script from top to bottom; the result is the exit status and the final world.\<close>

definition main :: "world \<Rightarrow> nat \<times> world" where
  "main w0 =
     (let (found_icons, w1) = path_exists icons_path w0 in
      if \<not> found_icons then (1, print (error_message icons_path) w1)
      else
        let (found_b64, w2) = path_exists b64_path w1 in
        if \<not> found_b64 then (1, print (error_message b64_path) w2)
        else
          case read_text b64_path w2 of
            (Inl e, w3) \<Rightarrow> uncaught e w3
          | (Inr raw, w3) \<Rightarrow>
              let b64_content = strip raw;
                  uri = data_uri b64_content
              in case read_text icons_path w3 of
                   (Inl e, w4) \<Rightarrow> uncaught e w4
                 | (Inr content, w4) \<Rightarrow>
                     let new = new_content uri content
                     in if content = new
                        then (0, print warning_message w4)
                        else
                          (case write_text icons_path new w4 of
                             (Some e, w5) \<Rightarrow> uncaught e w5
                           | (None, w5) \<Rightarrow> (0, print success_message w5)))"

definition run :: "filesystem \<Rightarrow> nat \<times> world" where
  "run fs = main \<lparr>files = fs, trace = []\<rparr>"

definition exit_status :: "filesystem \<Rightarrow> nat" where
  "exit_status fs = fst (run fs)"

definition files_after :: "filesystem \<Rightarrow> filesystem" where
  "files_after fs = files (snd (run fs))"

definition trace_of :: "filesystem \<Rightarrow> event list" where
  "trace_of fs = trace (snd (run fs))"

fun printed :: "event list \<Rightarrow> string list" where
  "printed [] = []"
| "printed (Print s # es) = s # printed es"
| "printed (e # es) = printed es"

fun written :: "event list \<Rightarrow> path list" where
  "written [] = []"
| "written (Write p s # es) = p # written es"
| "written (e # es) = written es"

fun written_texts :: "event list \<Rightarrow> string list" where
  "written_texts [] = []"
| "written_texts (Write p s # es) = s # written_texts es"
| "written_texts (e # es) = written_texts es"

fun read_paths :: "event list \<Rightarrow> path list" where
  "read_paths [] = []"
| "read_paths (Read p # es) = p # read_paths es"
| "read_paths (e # es) = read_paths es"

fun tracebacks :: "event list \<Rightarrow> io_error list" where
  "tracebacks [] = []"
| "tracebacks (Traceback e # es) = e # tracebacks es"
| "tracebacks (e # es) = tracebacks es"

text \<open>
  An input or output fault: reading the payload file raises, or reading the icons file
  raises, or the text changes and writing it raises.
\<close>

definition io_fault :: "filesystem \<Rightarrow> bool" where
  "io_fault fs =
     (case text_at fs b64_path of
        Inl e \<Rightarrow> True
      | Inr raw \<Rightarrow>
          (case text_at fs icons_path of
             Inl e \<Rightarrow> True
           | Inr content \<Rightarrow>
               new_content (data_uri (strip raw)) content \<noteq> content \<and>
               fst (put_text fs icons_path (new_content (data_uri (strip raw)) content))
                 \<noteq> None))"

text \<open>
  What the two calls leave in place of an occurrence of a target in the source text: the
  first call puts the \<open>maskImage\<close> replacement, over which the second call then passes;
  the second call puts the \<open>WebkitMaskImage\<close> replacement.
\<close>

definition inserted :: "string \<Rightarrow> string \<Rightarrow> string" where
  "inserted uri t =
     (if t = target_mask
      then replace target_webkit (replacement_webkit uri) (replacement_mask uri)
      else replacement_webkit uri)"

section \<open>Auxiliary notions for the proofs\<close>

text \<open>
  \<open>clear t x Y\<close>: in the text \<open>x @ Y\<close> no occurrence of \<open>t\<close> starts inside \<open>x\<close>.
  \<open>apart u w\<close>: an occurrence of \<open>w\<close> can overlap an occurrence of \<open>u\<close> only by being
  the same occurrence of the same string. \<open>framed h b w\<close>: \<open>w\<close> is a head \<open>h\<close> ending in a
  space, an apostrophe, a body \<open>b\<close> ending in a closing parenthesis, and an apostrophe,
  with no other apostrophe; the two targets and the two replacements have this shape.
\<close>

definition clear :: "string \<Rightarrow> string \<Rightarrow> string \<Rightarrow> bool" where
  "clear t x Y \<longleftrightarrow> (\<forall>a. a \<noteq> [] \<and> suffix a x \<longrightarrow> \<not> prefix t (a @ Y))"

definition apart :: "string \<Rightarrow> string \<Rightarrow> bool" where
  "apart u w \<longleftrightarrow>
     (\<forall>a. a \<noteq> [] \<and> suffix a u \<and> (prefix a w \<or> prefix w a) \<longrightarrow> a = u \<and> w = u)"

definition framed :: "string \<Rightarrow> string \<Rightarrow> string \<Rightarrow> bool" where
  "framed h b w \<longleftrightarrow>
     w = h @ sq # b @ [sq] \<and> sq \<notin> set h \<and> sq \<notin> set b \<and>
     h \<noteq> [] \<and> last h = CHR '' '' \<and> b \<noteq> [] \<and> last b = CHR '')''"

definition head_mask :: string where
  "head_mask = ''maskImage: ''"

definition head_webkit :: string where
  "head_webkit = ''WebkitMaskImage: ''"

definition body :: "string \<Rightarrow> string" where
  "body u = ''url('' @ [dq] @ u @ [dq] @ '')''"

definition tokens :: "string \<Rightarrow> string set" where
  "tokens p = {target_mask, target_webkit,
               replacement_mask (data_uri p), replacement_webkit (data_uri p)}"

section \<open>Concrete inputs\<close>

text \<open>
  A file system holding the two files of the script as two separate regular files that
  can be read and written, on a device without limit.
\<close>

definition example_fs :: "string \<Rightarrow> string \<Rightarrow> filesystem" where
  "example_fs content raw =
     \<lparr>entries = [icons_path \<mapsto> 0, b64_path \<mapsto> 1],
      store = (\<lambda>i. if i = 0 then File (Some content) True True
                    else File (Some raw) True True),
      space = None\<rparr>"

text \<open>No file at all.\<close>

definition empty_fs :: filesystem where
  "empty_fs = \<lparr>entries = Map.empty, store = (\<lambda>i. Directory), space = None\<rparr>"

text \<open>Only the icons file.\<close>

definition icons_only_fs :: "string \<Rightarrow> filesystem" where
  "icons_only_fs content =
     \<lparr>entries = [icons_path \<mapsto> 0],
      store = (\<lambda>i. File (Some content) True True),
      space = None\<rparr>"

text \<open>The icons path names a directory; the payload file is as it should be.\<close>

definition directory_fs :: filesystem where
  "directory_fs =
     \<lparr>entries = [icons_path \<mapsto> 0, b64_path \<mapsto> 1],
      store = (\<lambda>i. if i = 0 then Directory else File (Some ''abcd'') True True),
      space = None\<rparr>"

text \<open>
  The payload path is a link to the icons file: both paths name the one file, whose text
  is the \<open>maskImage\<close> target.
\<close>

definition linked_fs :: filesystem where
  "linked_fs =
     \<lparr>entries = [icons_path \<mapsto> 0, b64_path \<mapsto> 0],
      store = (\<lambda>i. File (Some target_mask) True True),
      space = None\<rparr>"

text \<open>A source text with each target once.\<close>

definition plain_source :: string where
  "plain_source = target_mask @ '', '' @ target_webkit"

text \<open>
  A source text with each target once, in which the \<open>maskImage\<close> entry of another icon
  already holds the data URI of the payload \<open>abcd\<close>.
\<close>

definition seeded_source :: string where
  "seeded_source = replacement_mask (data_uri ''abcd'') @ '', '' @ plain_source"

section \<open>Scanning and counting\<close>

lemma replace_Nil: "t \<noteq> [] \<Longrightarrow> replace t new [] = []"
  by (cases t) simp_all

lemma replace_match: "t \<noteq> [] \<Longrightarrow> replace t new (t @ rest) = new @ replace t new rest"
  by (cases t) (simp_all add: prefix_def)

lemma replace_step:
  "t \<noteq> [] \<Longrightarrow> \<not> prefix t (c # cs) \<Longrightarrow> replace t new (c # cs) = c # replace t new cs"
  by (cases t) auto

lemma prefix_append_cases:
  assumes "prefix t (a @ Y)"
  shows "prefix a t \<or> prefix t a"
proof -
  have "prefix a (a @ Y)" by simp
  from prefix_same_cases [OF assms this] show ?thesis by blast
qed

lemma clear_Cons:
  assumes "clear t (c # x) Y"
  shows "clear t x Y \<and> \<not> prefix t (c # x @ Y)"
proof
  show "clear t x Y"
    using assms unfolding clear_def by (blast intro: suffix_ConsI)
  have "c # x \<noteq> [] \<and> suffix (c # x) (c # x)" by simp
  with assms have "\<not> prefix t ((c # x) @ Y)" unfolding clear_def by blast
  then show "\<not> prefix t (c # x @ Y)" by simp
qed

lemma replace_skip:
  "t \<noteq> [] \<Longrightarrow> clear t x Y \<Longrightarrow> replace t new (x @ Y) = x @ replace t new Y"
proof (induction x)
  case Nil
  then show ?case by simp
next
  case (Cons c x)
  from clear_Cons [OF Cons.prems(2)] have "clear t x Y" and "\<not> prefix t (c # (x @ Y))"
    by simp_all
  with Cons.IH Cons.prems(1) show ?case
    by (simp add: replace_step)
qed

lemma count_skip: "clear t x Y \<Longrightarrow> count_occ t (x @ Y) = count_occ t Y"
proof (induction x)
  case Nil
  then show ?case by simp
next
  case (Cons c x)
  from clear_Cons [OF Cons.prems] have "clear t x Y" and "\<not> prefix t (c # (x @ Y))"
    by simp_all
  with Cons.IH show ?case by simp
qed

lemma apart_clear: "apart u w \<Longrightarrow> u \<noteq> w \<Longrightarrow> clear w u Y"
  unfolding apart_def clear_def using prefix_append_cases by blast

lemma apart_clear_tl: "apart (c # u) w \<Longrightarrow> clear w u Y"
  unfolding apart_def clear_def
proof (intro allI impI)
  fix a
  assume s: "\<forall>a. a \<noteq> [] \<and> suffix a (c # u) \<and> (prefix a w \<or> prefix w a) \<longrightarrow> a = c # u \<and> w = c # u"
    and a: "a \<noteq> [] \<and> suffix a u"
  show "\<not> prefix w (a @ Y)"
  proof
    assume "prefix w (a @ Y)"
    then have "prefix a w \<or> prefix w a" by (rule prefix_append_cases)
    moreover from a have "suffix a (c # u)" by (simp add: suffix_ConsI)
    ultimately have "a = c # u" using s a by blast
    with a show False using suffix_length_le [of a u] by simp
  qed
qed

lemma count_self:
  assumes "apart w w" "w \<noteq> []"
  shows "count_occ w (w @ Y) = Suc (count_occ w Y)"
proof -
  from assms(2) obtain c u where w: "w = c # u" by (cases w) auto
  have "clear w u Y" using apart_clear_tl assms(1) unfolding w by blast
  then have "count_occ w (u @ Y) = count_occ w Y" by (rule count_skip)
  then show ?thesis unfolding w by simp
qed

lemma replace_id: "t \<noteq> [] \<Longrightarrow> count_occ t s = 0 \<Longrightarrow> replace t new s = s"
  by (induction s) (auto simp: replace_Nil replace_step split: if_splits)

lemma count_occ_sublist: "t \<noteq> [] \<Longrightarrow> count_occ t s = 0 \<longleftrightarrow> \<not> sublist t s"
  by (induction s) (auto simp: sublist_Cons_right)

lemma apart_proper_suffix:
  assumes "apart w r" "0 < k" "k < length w"
  shows "\<not> prefix (drop k w) (r @ Y)"
proof
  assume p: "prefix (drop k w) (r @ Y)"
  let ?b = "drop k w"
  have "prefix r (r @ Y)" by simp
  from prefix_same_cases [OF p this] have "prefix ?b r \<or> prefix r ?b" .
  moreover have "?b \<noteq> []" using assms(3) by simp
  moreover have "suffix ?b w" by (rule suffix_drop)
  ultimately have "?b = w" using assms(1) unfolding apart_def by blast
  then have "length (drop k w) = length w" by simp
  with assms(2,3) show False by simp
qed

lemma prefix_replace_back:
  assumes "t \<noteq> []" "apart w r"
  shows "prefix (drop k w) (replace t r s) \<Longrightarrow> k < length w \<Longrightarrow>
         (k = 0 \<longrightarrow> \<not> prefix t s) \<Longrightarrow> prefix (drop k w) s"
proof (induction s arbitrary: k rule: length_induct)
  case (1 s)
  show ?case
  proof (cases s)
    case Nil
    with "1.prems" assms(1) show ?thesis by (simp add: replace_Nil)
  next
    case (Cons c cs)
    show ?thesis
    proof (cases "prefix t s")
      case True
      then obtain rest where s: "s = t @ rest" by (auto simp: prefix_def)
      with "1.prems"(3) True have k: "0 < k" by auto
      from "1.prems"(1) have "prefix (drop k w) (r @ replace t r rest)"
        unfolding s by (simp add: replace_match assms(1))
      with apart_proper_suffix [OF assms(2) k "1.prems"(2)] show ?thesis by blast
    next
      case False
      then have rs: "replace t r s = c # replace t r cs"
        unfolding Cons using assms(1) by (simp add: replace_step)
      have dk: "drop k w = w ! k # drop (Suc k) w"
        using "1.prems"(2) by (simp add: Cons_nth_drop_Suc)
      from "1.prems"(1) have c: "w ! k = c" and p: "prefix (drop (Suc k) w) (replace t r cs)"
        unfolding rs dk by simp_all
      have "prefix (drop (Suc k) w) cs"
      proof (cases "Suc k < length w")
        case True
        have "length cs < length s" unfolding Cons by simp
        with "1.IH" p True show ?thesis by blast
      next
        case False
        then show ?thesis by simp
      qed
      with c show ?thesis unfolding dk Cons by simp
    qed
  qed
qed

lemma prefix_replace_iff:
  assumes "t \<noteq> []" "w \<noteq> []" "w \<noteq> t" "apart w r" "apart w t" "\<not> prefix t s"
  shows "prefix w (replace t r s) \<longleftrightarrow> prefix w s"
proof
  assume "prefix w (replace t r s)"
  then have "prefix (drop 0 w) (replace t r s)" by simp
  from prefix_replace_back [OF assms(1,4) this] assms(2,6) show "prefix w s" by simp
next
  assume "prefix w s"
  then obtain rest where s: "s = w @ rest" by (auto simp: prefix_def)
  have "clear t w rest" using apart_clear [OF assms(5,3)] .
  from replace_skip [OF assms(1) this] show "prefix w (replace t r s)"
    unfolding s by simp
qed

lemma count_replace_self:
  assumes "t \<noteq> []" "t \<noteq> r" "apart r t" "apart t r"
  shows "count_occ t (replace t r s) = 0"
proof (induction s rule: length_induct)
  case (1 s)
  show ?case
  proof (cases s)
    case Nil
    with assms(1) show ?thesis by (simp add: replace_Nil)
  next
    case (Cons c cs)
    show ?thesis
    proof (cases "prefix t s")
      case True
      then obtain rest where s: "s = t @ rest" by (auto simp: prefix_def)
      have "length rest < length s" unfolding s using assms(1) by simp
      with "1.IH" have "count_occ t (replace t r rest) = 0" by blast
      moreover have "clear t r (replace t r rest)"
        using apart_clear [OF assms(3)] assms(2) by blast
      ultimately show ?thesis
        unfolding s by (simp add: replace_match assms(1) count_skip)
    next
      case False
      then have rs: "replace t r s = c # replace t r cs"
        unfolding Cons using assms(1) by (simp add: replace_step)
      have "\<not> prefix t (replace t r s)"
      proof
        assume "prefix t (replace t r s)"
        then have "prefix (drop 0 t) (replace t r s)" by simp
        from prefix_replace_back [OF assms(1,4) this] assms(1) False show False by simp
      qed
      moreover have "count_occ t (replace t r cs) = 0"
        using "1.IH" unfolding Cons by simp
      ultimately show ?thesis unfolding rs by simp
    qed
  qed
qed

lemma count_replace_other:
  assumes "t \<noteq> []" "w \<noteq> []" "w \<noteq> t"
    and "apart t w" "apart r w" "apart w r" "apart w t" "apart t t"
  shows "count_occ w (replace t r s) =
         count_occ w s + (if w = r then count_occ t s else 0)"
proof (induction s rule: length_induct)
  case (1 s)
  show ?case
  proof (cases s)
    case Nil
    with assms(1,2) show ?thesis by (simp add: replace_Nil)
  next
    case (Cons c cs)
    show ?thesis
    proof (cases "prefix t s")
      case True
      then obtain rest where s: "s = t @ rest" by (auto simp: prefix_def)
      have "length rest < length s" unfolding s using assms(1) by simp
      with "1.IH" have IH: "count_occ w (replace t r rest) =
         count_occ w rest + (if w = r then count_occ t rest else 0)" by blast
      have a: "count_occ w (t @ rest) = count_occ w rest"
        using count_skip [OF apart_clear [OF assms(4)]] assms(3) by blast
      have b: "count_occ t (t @ rest) = Suc (count_occ t rest)"
        using count_self [OF assms(8,1)] .
      have c: "count_occ w (r @ replace t r rest) =
               (if w = r then 1 else 0) + count_occ w (replace t r rest)"
      proof (cases "w = r")
        case True
        with count_self [OF _ assms(2)] assms(5) show ?thesis by simp
      next
        case False
        then have "r \<noteq> w" by blast
        from count_skip [OF apart_clear [OF assms(5) this]] False show ?thesis by simp
      qed
      show ?thesis
        unfolding s by (simp add: replace_match assms(1) a b c IH)
    next
      case False
      then have rs: "replace t r s = c # replace t r cs"
        unfolding Cons using assms(1) by (simp add: replace_step)
      have "prefix w (replace t r s) \<longleftrightarrow> prefix w s"
        using prefix_replace_iff [OF assms(1,2,3,6,7) False] .
      then have p: "prefix w (c # replace t r cs) \<longleftrightarrow> prefix w (c # cs)"
        unfolding rs unfolding Cons .
      have IH: "count_occ w (replace t r cs) =
         count_occ w cs + (if w = r then count_occ t cs else 0)"
        using "1.IH" unfolding Cons by simp
      from False have "\<not> prefix t (c # cs)" unfolding Cons .
      then show ?thesis unfolding rs unfolding Cons by (simp add: p IH)
    qed
  qed
qed

lemma first_occurrence_unique:
  "x \<notin> set xs \<Longrightarrow> x \<notin> set xs' \<Longrightarrow> xs @ x # ys = xs' @ x # ys' \<Longrightarrow>
   xs = xs' \<and> ys = ys'"
proof (induction xs arbitrary: xs')
  case Nil
  then show ?case by (cases xs') auto
next
  case (Cons a xs)
  then show ?case by (cases xs') auto
qed

lemma framed_end:
  assumes "framed h b w" and "w = x @ [CHR '')'', sq] @ y"
  shows "y = []"
proof (rule ccontr)
  assume y: "y \<noteq> []"
  from assms(1) have w: "w = h @ sq # (b @ [sq])" and h: "sq \<notin> set h" and b: "sq \<notin> set b"
    and nh: "h \<noteq> []" and lh: "last h = CHR '' ''"
    unfolding framed_def by simp_all
  from assms(2) have w2: "w = (x @ [CHR '')'']) @ sq # y" by simp
  show False
  proof (cases "sq \<in> set x")
    case False
    then have "sq \<notin> set (x @ [CHR '')''])" by simp
    from first_occurrence_unique [OF h this, of "b @ [sq]" y] w w2
    have "h = x @ [CHR '')'']" by simp
    with lh show False by simp
  next
    case True
    then obtain x1 x2 where x: "x = x1 @ sq # x2" and x1: "sq \<notin> set x1"
      by (auto dest: split_list_first)
    have w3: "w = x1 @ sq # (x2 @ [CHR '')'', sq] @ y)" using w2 x by simp
    from first_occurrence_unique [OF h x1, of "b @ [sq]" "x2 @ [CHR '')'', sq] @ y"] w w3
    have e: "b @ [sq] = x2 @ [CHR '')'', sq] @ y" by simp
    from y obtain y' z where "y = y' @ [z]" by (cases y rule: rev_cases) auto
    with e have "b @ [sq] = (x2 @ [CHR '')'', sq] @ y') @ [z]" by simp
    then have "b = x2 @ [CHR '')'', sq] @ y'" by (simp only: append1_eq_conv)
    with b show False by simp
  qed
qed

lemma framed_tail:
  assumes "framed h b w"
  shows "\<exists>v. w = v @ [CHR '')'', sq]"
proof -
  from assms have w: "w = h @ sq # b @ [sq]" and nb: "b \<noteq> []" and lb: "last b = CHR '')''"
    unfolding framed_def by simp_all
  from nb lb have "b = butlast b @ [CHR '')'']" by (metis append_butlast_last_id)
  then have "w = (h @ sq # butlast b) @ [CHR '')'', sq]" using w by (metis append_Cons append_Nil append_assoc)
  then show ?thesis by blast
qed

lemma framed_hd:
  assumes "framed h b w"
  shows "w \<noteq> [] \<and> hd w \<noteq> sq"
proof -
  from assms have w: "w = h @ sq # b @ [sq]" and nh: "h \<noteq> []" and h: "sq \<notin> set h"
    unfolding framed_def by simp_all
  from nh h have "hd h \<noteq> sq" by (cases h) auto
  with w nh show ?thesis by simp
qed

lemma framed_overlap:
  assumes u: "framed h b u" and w: "framed h' b' w"
    and a: "a \<noteq> []" "suffix a u" and c: "prefix a w \<or> prefix w a"
  shows "a = w"
proof -
  from framed_tail [OF u] obtain v where uv: "u = v @ [CHR '')'', sq]" by blast
  from framed_tail [OF w] obtain v' where wv: "w = v' @ [CHR '')'', sq]" by blast
  from c show ?thesis
  proof
    assume p: "prefix a w"
    then obtain y where wy: "w = a @ y" by (auto simp: prefix_def)
    from a(2) obtain x where ux: "u = x @ a" by (auto simp: suffix_def)
    show ?thesis
    proof (cases "length a = 1")
      case True
      with ux uv have "a = [sq]"
        by (cases a) (auto simp: append_eq_append_conv2 Cons_eq_append_conv)
      with wy framed_hd [OF w] show ?thesis by simp
    next
      case False
      moreover from a(1) have "length a \<noteq> 0" by simp
      ultimately have "2 \<le> length a" by arith
      then have "drop (length u - 2) u = drop (length a - 2) a"
        unfolding ux by simp
      moreover have "drop (length u - 2) u = [CHR '')'', sq]"
        unfolding uv by simp
      ultimately have "take (length a - 2) a @ [CHR '')'', sq] = a"
        using append_take_drop_id [of "length a - 2" a] by simp
      then obtain a' where "a = a' @ [CHR '')'', sq]" by metis
      with wy have "w = a' @ [CHR '')'', sq] @ y" by simp
      from framed_end [OF w this] wy show ?thesis by simp
    qed
  next
    assume "prefix w a"
    then obtain y where ay: "a = w @ y" by (auto simp: prefix_def)
    from a(2) obtain x where ux: "u = x @ a" by (auto simp: suffix_def)
    from ux ay wv have "u = (x @ v') @ [CHR '')'', sq] @ y" by simp
    from framed_end [OF u this] ay show ?thesis by simp
  qed
qed

lemma framed_suffix:
  assumes u: "framed h b u" and w: "framed h' b' w" and s: "suffix w u"
  shows "b' = b \<and> suffix h' h"
proof -
  from u have ue: "u = h @ sq # (b @ [sq])" and h: "sq \<notin> set h" and b: "sq \<notin> set b"
    unfolding framed_def by simp_all
  from w have we: "w = h' @ sq # (b' @ [sq])" and h': "sq \<notin> set h'"
    unfolding framed_def by simp_all
  from s obtain x where ux: "u = x @ w" by (auto simp: suffix_def)
  show ?thesis
  proof (cases "sq \<in> set x")
    case False
    with h' have "sq \<notin> set (x @ h')" by simp
    from first_occurrence_unique [OF h this, of "b @ [sq]" "b' @ [sq]"] ue ux we
    have "h = x @ h'" "b = b'" by simp_all
    then show ?thesis by (simp add: suffix_def)
  next
    case True
    then obtain x1 x2 where x: "x = x1 @ sq # x2" and x1: "sq \<notin> set x1"
      by (auto dest: split_list_first)
    have "u = x1 @ sq # (x2 @ h' @ sq # b' @ [sq])" using ux x we by simp
    from first_occurrence_unique [OF h x1, of "b @ [sq]" "x2 @ h' @ sq # b' @ [sq]"] ue this
    have "b @ [sq] = (x2 @ h' @ sq # b') @ [sq]" by simp
    then have "b = x2 @ h' @ sq # b'" by (simp only: append1_eq_conv)
    with b show ?thesis by simp
  qed
qed

lemma framed_targets:
  "framed head_mask (body ''/highlighter-icon.png'') target_mask"
  "framed head_webkit (body ''/highlighter-icon.png'') target_webkit"
  by (simp_all add: framed_def head_mask_def head_webkit_def body_def target_mask_def
      target_webkit_def)

lemma framed_replacements:
  assumes "sq \<notin> set p"
  shows "framed head_mask (body (data_uri p)) (replacement_mask (data_uri p))"
    and "framed head_webkit (body (data_uri p)) (replacement_webkit (data_uri p))"
  using assms
  by (simp_all add: framed_def head_mask_def head_webkit_def body_def replacement_mask_def
      replacement_webkit_def data_uri_def)

lemma heads_suffix:
  assumes "h \<in> {head_mask, head_webkit}" "h' \<in> {head_mask, head_webkit}" "suffix h' h"
  shows "h' = h"
proof -
  have "\<not> suffix head_mask head_webkit" "\<not> suffix head_webkit head_mask"
    by (simp_all add: head_mask_def head_webkit_def suffix_to_prefix)
  with assms show ?thesis by auto
qed

lemma tokens_framed:
  assumes "sq \<notin> set p" "w \<in> tokens p"
  shows "\<exists>h b. framed h b w \<and> h \<in> {head_mask, head_webkit}"
  using assms framed_targets framed_replacements [OF assms(1)]
  unfolding tokens_def by auto

lemma tokens_apart:
  assumes p: "sq \<notin> set p" and u: "u \<in> tokens p" and w: "w \<in> tokens p"
  shows "apart u w"
unfolding apart_def
proof (intro allI impI)
  fix a
  assume a: "a \<noteq> [] \<and> suffix a u \<and> (prefix a w \<or> prefix w a)"
  from tokens_framed [OF p u] obtain h b where fu: "framed h b u"
    and hu: "h \<in> {head_mask, head_webkit}" by blast
  from tokens_framed [OF p w] obtain h' b' where fw: "framed h' b' w"
    and hw: "h' \<in> {head_mask, head_webkit}" by blast
  from framed_overlap [OF fu fw] a have aw: "a = w" by blast
  with a have "suffix w u" by simp
  from framed_suffix [OF fu fw this] have bb: "b' = b" and "suffix h' h" by simp_all
  from heads_suffix [OF hu hw this(2)] have "h' = h" .
  with bb fu fw have "w = u" unfolding framed_def by simp
  with aw show "a = u \<and> w = u" by simp
qed

lemma tokens_nonempty: "w \<in> tokens p \<Longrightarrow> w \<noteq> []"
  unfolding tokens_def
  by (auto simp: target_mask_def target_webkit_def replacement_mask_def replacement_webkit_def)

lemma tokens_distinct:
  "target_mask \<noteq> target_webkit"
  "target_mask \<noteq> replacement_mask (data_uri p)"
  "target_mask \<noteq> replacement_webkit (data_uri p)"
  "target_webkit \<noteq> replacement_mask (data_uri p)"
  "target_webkit \<noteq> replacement_webkit (data_uri p)"
  "replacement_mask (data_uri p) \<noteq> replacement_webkit (data_uri q)"
  by (simp_all add: target_mask_def target_webkit_def replacement_mask_def
      replacement_webkit_def data_uri_def)

lemma tokens_mem:
  "target_mask \<in> tokens p" "target_webkit \<in> tokens p"
  "replacement_mask (data_uri p) \<in> tokens p" "replacement_webkit (data_uri p) \<in> tokens p"
  by (simp_all add: tokens_def)

lemmas tokens_neq = tokens_distinct tokens_distinct [symmetric]

lemma replace_commute:
  assumes ne: "t1 \<noteq> []" "t2 \<noteq> []" and d: "t1 \<noteq> t2" "r1 \<noteq> t2" "r2 \<noteq> t1"
    and s1: "apart r1 t2" "apart t1 t2" "apart t2 r1"
    and s2: "apart r2 t1" "apart t2 t1" "apart t1 r2"
  shows "replace t2 r2 (replace t1 r1 s) = replace t1 r1 (replace t2 r2 s)"
proof (induction s rule: length_induct)
  case (1 s)
  show ?case
  proof (cases s)
    case Nil
    with ne show ?thesis by (simp add: replace_Nil)
  next
    case (Cons c cs)
    consider (a) "prefix t1 s" | (b) "prefix t2 s" | (c) "\<not> prefix t1 s" "\<not> prefix t2 s"
      by blast
    then show ?thesis
    proof cases
      case a
      then obtain rest where s: "s = t1 @ rest" by (auto simp: prefix_def)
      have "length rest < length s" unfolding s using ne by simp
      with "1.IH" have IH: "replace t2 r2 (replace t1 r1 rest) = replace t1 r1 (replace t2 r2 rest)"
        by blast
      have "replace t2 r2 (replace t1 r1 s) = r1 @ replace t2 r2 (replace t1 r1 rest)"
        unfolding s using replace_skip [OF ne(2) apart_clear [OF s1(1) d(2)]]
        by (simp add: replace_match ne)
      moreover have "replace t1 r1 (replace t2 r2 s) = r1 @ replace t1 r1 (replace t2 r2 rest)"
        unfolding s using replace_skip [OF ne(2) apart_clear [OF s1(2) d(1)]]
        by (simp add: replace_match ne)
      ultimately show ?thesis using IH by simp
    next
      case b
      then obtain rest where s: "s = t2 @ rest" by (auto simp: prefix_def)
      have "length rest < length s" unfolding s using ne by simp
      with "1.IH" have IH: "replace t2 r2 (replace t1 r1 rest) = replace t1 r1 (replace t2 r2 rest)"
        by blast
      from d(1) have d': "t2 \<noteq> t1" by blast
      have "replace t1 r1 (replace t2 r2 s) = r2 @ replace t1 r1 (replace t2 r2 rest)"
        unfolding s using replace_skip [OF ne(1) apart_clear [OF s2(1) d(3)]]
        by (simp add: replace_match ne)
      moreover have "replace t2 r2 (replace t1 r1 s) = r2 @ replace t2 r2 (replace t1 r1 rest)"
        unfolding s using replace_skip [OF ne(1) apart_clear [OF s2(2) d']]
        by (simp add: replace_match ne)
      ultimately show ?thesis using IH by simp
    next
      case c
      from c(1) have e1: "replace t1 r1 s = c # replace t1 r1 cs"
        unfolding Cons using ne by (simp add: replace_step)
      from c(2) have e2: "replace t2 r2 s = c # replace t2 r2 cs"
        unfolding Cons using ne by (simp add: replace_step)
      from d(1) have d': "t2 \<noteq> t1" by blast
      have "\<not> prefix t2 (replace t1 r1 s)"
        using prefix_replace_iff [OF ne(1) ne(2) d' s1(3) s2(2) c(1)] c(2) by simp
      then have f1: "replace t2 r2 (replace t1 r1 s) = c # replace t2 r2 (replace t1 r1 cs)"
        unfolding e1 using ne by (simp add: replace_step)
      have "\<not> prefix t1 (replace t2 r2 s)"
        using prefix_replace_iff [OF ne(2) ne(1) d(1) s2(3) s1(2) c(2)] c(1) by simp
      then have f2: "replace t1 r1 (replace t2 r2 s) = c # replace t1 r1 (replace t2 r2 cs)"
        unfolding e2 using ne by (simp add: replace_step)
      have "length cs < length s" unfolding Cons by simp
      with "1.IH" f1 f2 show ?thesis by simp
    qed
  qed
qed

lemma counts_after:
  assumes p: "sq \<notin> set p"
  shows "count_occ target_mask (new_content (data_uri p) s) = 0"
    and "count_occ target_webkit (new_content (data_uri p) s) = 0"
    and "count_occ (replacement_mask (data_uri p)) (new_content (data_uri p) s) =
         count_occ (replacement_mask (data_uri p)) s + count_occ target_mask s"
    and "count_occ (replacement_webkit (data_uri p)) (new_content (data_uri p) s) =
         count_occ (replacement_webkit (data_uri p)) s + count_occ target_webkit s"
proof -
  let ?tm = target_mask and ?tw = target_webkit
  let ?rm = "replacement_mask (data_uri p)" and ?rw = "replacement_webkit (data_uri p)"
  let ?s1 = "replace ?tm ?rm s"
  note S = tokens_apart [OF p] and M = tokens_mem and N = tokens_nonempty [of _ p]
    and D = tokens_neq
  have a1: "count_occ ?tm ?s1 = 0"
    by (rule count_replace_self) (simp_all add: S M N D)
  have a2: "count_occ ?tw ?s1 = count_occ ?tw s"
    using count_replace_other [of ?tm ?tw ?rm s] by (simp add: S M N D)
  have a3: "count_occ ?rm ?s1 = count_occ ?rm s + count_occ ?tm s"
    using count_replace_other [of ?tm ?rm ?rm s] by (simp add: S M N D)
  have a4: "count_occ ?rw ?s1 = count_occ ?rw s"
    using count_replace_other [of ?tm ?rw ?rm s] by (simp add: S M N D)
  show "count_occ ?tm (new_content (data_uri p) s) = 0"
    unfolding new_content_def
    using count_replace_other [of ?tw ?tm ?rw ?s1] by (simp add: S M N D a1)
  show "count_occ ?tw (new_content (data_uri p) s) = 0"
    unfolding new_content_def
    by (rule count_replace_self) (simp_all add: S M N D)
  show "count_occ ?rm (new_content (data_uri p) s) = count_occ ?rm s + count_occ ?tm s"
    unfolding new_content_def
    using count_replace_other [of ?tw ?rm ?rw ?s1] by (simp add: S M N D a3)
  show "count_occ ?rw (new_content (data_uri p) s) = count_occ ?rw s + count_occ ?tw s"
    unfolding new_content_def
    using count_replace_other [of ?tw ?rw ?rw ?s1] by (simp add: S M N D a4 a2)
qed

lemma new_content_fixed:
  assumes "count_occ target_mask s = 0" "count_occ target_webkit s = 0"
  shows "new_content uri s = s"
  unfolding new_content_def using assms
  by (simp add: replace_id tokens_nonempty [OF tokens_mem(1)] tokens_nonempty [OF tokens_mem(2)])

lemma new_content_idem:
  assumes "sq \<notin> set p"
  shows "new_content (data_uri p) (new_content (data_uri p) s) = new_content (data_uri p) s"
  by (rule new_content_fixed) (simp_all add: counts_after [OF assms])

lemma new_content_commute:
  assumes p: "sq \<notin> set p"
  shows "new_content (data_uri p) s =
         replace target_mask (replacement_mask (data_uri p))
           (replace target_webkit (replacement_webkit (data_uri p)) s)"
  unfolding new_content_def
  by (rule replace_commute) (simp_all add: tokens_apart [OF p] tokens_mem tokens_nonempty tokens_neq)

lemma count_pos_sublist: "t \<noteq> [] \<Longrightarrow> 0 < count_occ t s \<longleftrightarrow> sublist t s"
  using count_occ_sublist [of t s] by auto

lemma length_replace_ge:
  assumes "t \<noteq> []" "length t \<le> length r"
  shows "length s \<le> length (replace t r s)"
proof (induction s rule: length_induct)
  case (1 s)
  show ?case
  proof (cases s)
    case Nil
    then show ?thesis by simp
  next
    case (Cons c cs)
    show ?thesis
    proof (cases "prefix t s")
      case True
      then obtain rest where s: "s = t @ rest" by (auto simp: prefix_def)
      have "length rest < length s" unfolding s using assms(1) by simp
      with "1.IH" have "length rest \<le> length (replace t r rest)" by blast
      with assms(2) show ?thesis unfolding s by (simp add: replace_match assms(1))
    next
      case False
      then have "replace t r s = c # replace t r cs"
        unfolding Cons using assms(1) by (simp add: replace_step)
      moreover have "length cs \<le> length (replace t r cs)"
        using "1.IH" unfolding Cons by simp
      ultimately show ?thesis unfolding Cons by simp
    qed
  qed
qed

lemma length_replace_gt:
  assumes "t \<noteq> []" "length t < length r"
  shows "sublist t s \<Longrightarrow> length s < length (replace t r s)"
proof (induction s rule: length_induct)
  case (1 s)
  show ?case
  proof (cases s)
    case Nil
    with "1.prems" assms(1) show ?thesis by simp
  next
    case (Cons c cs)
    show ?thesis
    proof (cases "prefix t s")
      case True
      then obtain rest where s: "s = t @ rest" by (auto simp: prefix_def)
      have "length rest \<le> length (replace t r rest)"
        using length_replace_ge [OF assms(1)] assms(2) by simp
      with assms(2) show ?thesis unfolding s by (simp add: replace_match assms(1))
    next
      case False
      then have rs: "replace t r s = c # replace t r cs"
        unfolding Cons using assms(1) by (simp add: replace_step)
      from "1.prems" False have "sublist t cs"
        unfolding Cons by (simp add: sublist_Cons_right)
      moreover have "length cs < length s" unfolding Cons by simp
      ultimately have "length cs < length (replace t r cs)" using "1.IH" by blast
      then show ?thesis unfolding rs unfolding Cons by simp
    qed
  qed
qed

lemma replace_absent: "t \<noteq> [] \<Longrightarrow> \<not> sublist t s \<Longrightarrow> replace t r s = s"
  using replace_id count_occ_sublist by blast

lemma target_lengths:
  "length target_mask < length (replacement_mask (data_uri b))"
  "length target_webkit < length (replacement_webkit (data_uri b))"
  by (simp_all add: target_mask_def target_webkit_def replacement_mask_def
      replacement_webkit_def data_uri_def)

lemma targets_nonempty: "target_mask \<noteq> []" "target_webkit \<noteq> []"
  by (simp_all add: target_mask_def target_webkit_def)

lemma new_content_absent:
  assumes "\<not> sublist target_mask s" "\<not> sublist target_webkit s"
  shows "new_content uri s = s"
  unfolding new_content_def using assms by (simp add: replace_absent targets_nonempty)

lemma new_content_present:
  assumes "sublist target_mask s \<or> sublist target_webkit s"
  shows "new_content (data_uri b) s \<noteq> s"
proof -
  let ?s1 = "replace target_mask (replacement_mask (data_uri b)) s"
  have ge2: "length ?s1 \<le> length (new_content (data_uri b) s)"
    unfolding new_content_def
    using length_replace_ge [OF targets_nonempty(2)] target_lengths(2) [of b]
    by (simp add: less_imp_le)
  have "length s < length (new_content (data_uri b) s)"
  proof (cases "sublist target_mask s")
    case True
    from length_replace_gt [OF targets_nonempty(1) target_lengths(1) True]
    have "length s < length ?s1" .
    with ge2 show ?thesis by simp
  next
    case False
    then have e: "?s1 = s" by (simp add: replace_absent targets_nonempty)
    from False assms have "sublist target_webkit s" by blast
    from length_replace_gt [OF targets_nonempty(2) target_lengths(2) this]
    show ?thesis unfolding new_content_def e .
  qed
  then show ?thesis by auto
qed

lemma strip_decompose:
  "\<exists>l r. raw = l @ strip raw @ r \<and> (\<forall>c\<in>set l. py_isspace c) \<and> (\<forall>c\<in>set r. py_isspace c)"
proof -
  let ?m = "dropWhile py_isspace raw"
  let ?l = "takeWhile py_isspace raw"
  let ?r = "rev (takeWhile py_isspace (rev ?m))"
  have "?m = rev (takeWhile py_isspace (rev ?m) @ dropWhile py_isspace (rev ?m))"
    by (simp only: takeWhile_dropWhile_id rev_rev_ident)
  also have "\<dots> = rev (dropWhile py_isspace (rev ?m)) @ ?r"
    by (rule rev_append)
  finally have "?m = strip raw @ ?r" unfolding strip_def .
  moreover have "raw = ?l @ ?m" by simp
  ultimately have "raw = ?l @ strip raw @ ?r" by metis
  moreover have "\<forall>c\<in>set ?l. py_isspace c" by (auto dest: set_takeWhileD)
  moreover have "\<forall>c\<in>set ?r. py_isspace c" by (auto dest: set_takeWhileD)
  ultimately show ?thesis by blast
qed

lemma strip_ends:
  assumes "strip raw \<noteq> []"
  shows "\<not> py_isspace (hd (strip raw)) \<and> \<not> py_isspace (last (strip raw))"
proof -
  let ?m = "dropWhile py_isspace raw"
  let ?d = "dropWhile py_isspace (rev ?m)"
  from assms have d: "?d \<noteq> []" unfolding strip_def by simp
  then have m: "?m \<noteq> []" by (metis dropWhile.simps(1) rev.simps(1))
  have "last (strip raw) = hd ?d" unfolding strip_def using d by (simp add: last_rev)
  moreover have "\<not> py_isspace (hd ?d)" using d by (rule hd_dropWhile)
  moreover have "hd (strip raw) = last ?d" unfolding strip_def using d by (simp add: hd_rev)
  moreover have "last ?d = last (rev ?m)"
    using d by (metis takeWhile_dropWhile_id last_appendR)
  moreover have "last (rev ?m) = hd ?m" using m by (simp add: last_rev)
  moreover have "\<not> py_isspace (hd ?m)" using m by (rule hd_dropWhile)
  ultimately show ?thesis by simp
qed

section \<open>Consequences for the two replacements\<close>

lemma match_sites_kept:
  assumes p: "sq \<notin> set p"
  shows "count_occ target_webkit (replace target_mask (replacement_mask (data_uri p)) s) =
         count_occ target_webkit s"
    and "count_occ target_mask (replace target_webkit (replacement_webkit (data_uri p)) s) =
         count_occ target_mask s"
proof -
  note S = tokens_apart [OF p] and M = tokens_mem and N = tokens_nonempty [of _ p]
    and D = tokens_neq
  show "count_occ target_webkit (replace target_mask (replacement_mask (data_uri p)) s) =
        count_occ target_webkit s"
    using count_replace_other [of target_mask target_webkit "replacement_mask (data_uri p)" s]
    by (simp add: S M N D)
  show "count_occ target_mask (replace target_webkit (replacement_webkit (data_uri p)) s) =
        count_occ target_mask s"
    using count_replace_other [of target_webkit target_mask "replacement_webkit (data_uri p)" s]
    by (simp add: S M N D)
qed

lemma uri_embedded:
  "sublist uri (replacement_mask uri)" "sublist uri (replacement_webkit uri)"
proof -
  have "replacement_mask uri = (''maskImage: '' @ [sq] @ ''url('' @ [dq]) @ uri @ ([dq] @ '')'' @ [sq])"
    by (simp add: replacement_mask_def)
  then show "sublist uri (replacement_mask uri)" unfolding sublist_def by blast
  have "replacement_webkit uri =
        (''WebkitMaskImage: '' @ [sq] @ ''url('' @ [dq]) @ uri @ ([dq] @ '')'' @ [sq])"
    by (simp add: replacement_webkit_def)
  then show "sublist uri (replacement_webkit uri)" unfolding sublist_def by blast
qed

lemma no_sq_example: "sq \<notin> set ''abcd1234==''"
  by simp

section \<open>The run, case by case\<close>

lemma paths_distinct: "icons_path \<noteq> b64_path"
  by (simp add: icons_path_def b64_path_def)

lemma text_at_entry: "text_at fs p = Inr s \<Longrightarrow> entries fs p \<noteq> None"
  by (auto simp: text_at_def split: option.splits)

lemma run_no_icons:
  "entries fs icons_path = None \<Longrightarrow>
   run fs = (1, \<lparr>files = fs,
                 trace = [PathExists icons_path, Print (error_message icons_path)]\<rparr>)"
  by (simp add: run_def main_def path_exists_def print_def)

lemma run_no_b64:
  "entries fs icons_path \<noteq> None \<Longrightarrow> entries fs b64_path = None \<Longrightarrow>
   run fs = (1, \<lparr>files = fs,
                 trace = [PathExists icons_path, PathExists b64_path,
                          Print (error_message b64_path)]\<rparr>)"
  by (simp add: run_def main_def path_exists_def print_def)

lemma run_b64_fault:
  "entries fs icons_path \<noteq> None \<Longrightarrow> entries fs b64_path \<noteq> None \<Longrightarrow>
   text_at fs b64_path = Inl e \<Longrightarrow>
   run fs = (1, \<lparr>files = fs,
                 trace = [PathExists icons_path, PathExists b64_path, Read b64_path,
                          Traceback e]\<rparr>)"
  by (auto simp: run_def main_def path_exists_def read_text_def uncaught_def)

lemma run_icons_fault:
  "entries fs icons_path \<noteq> None \<Longrightarrow> text_at fs b64_path = Inr raw \<Longrightarrow>
   text_at fs icons_path = Inl e \<Longrightarrow>
   run fs = (1, \<lparr>files = fs,
                 trace = [PathExists icons_path, PathExists b64_path, Read b64_path,
                          Read icons_path, Traceback e]\<rparr>)"
  using text_at_entry [of fs b64_path raw]
  by (auto simp: run_def main_def path_exists_def read_text_def uncaught_def)

lemma run_unchanged:
  "text_at fs icons_path = Inr content \<Longrightarrow> text_at fs b64_path = Inr raw \<Longrightarrow>
   new_content (data_uri (strip raw)) content = content \<Longrightarrow>
   run fs = (0, \<lparr>files = fs,
                 trace = [PathExists icons_path, PathExists b64_path, Read b64_path,
                          Read icons_path, Print warning_message]\<rparr>)"
  using text_at_entry [of fs b64_path raw] text_at_entry [of fs icons_path content]
  by (auto simp: run_def main_def path_exists_def read_text_def print_def)

lemma run_write_fault:
  "text_at fs icons_path = Inr content \<Longrightarrow> text_at fs b64_path = Inr raw \<Longrightarrow>
   new_content (data_uri (strip raw)) content \<noteq> content \<Longrightarrow>
   put_text fs icons_path (new_content (data_uri (strip raw)) content) = (Some e, fs') \<Longrightarrow>
   run fs = (1, \<lparr>files = fs',
                 trace = [PathExists icons_path, PathExists b64_path, Read b64_path,
                          Read icons_path,
                          Write icons_path (new_content (data_uri (strip raw)) content),
                          Traceback e]\<rparr>)"
  using text_at_entry [of fs b64_path raw] text_at_entry [of fs icons_path content]
    not_sym [of "new_content (data_uri (strip raw)) content" content]
  by (auto simp: run_def main_def path_exists_def read_text_def write_text_def uncaught_def
      Let_def)

lemma run_changed:
  "text_at fs icons_path = Inr content \<Longrightarrow> text_at fs b64_path = Inr raw \<Longrightarrow>
   new_content (data_uri (strip raw)) content \<noteq> content \<Longrightarrow>
   put_text fs icons_path (new_content (data_uri (strip raw)) content) = (None, fs') \<Longrightarrow>
   run fs = (0, \<lparr>files = fs',
                 trace = [PathExists icons_path, PathExists b64_path, Read b64_path,
                          Read icons_path,
                          Write icons_path (new_content (data_uri (strip raw)) content),
                          Print success_message]\<rparr>)"
  using text_at_entry [of fs b64_path raw] text_at_entry [of fs icons_path content]
    not_sym [of "new_content (data_uri (strip raw)) content" content]
  by (auto simp: run_def main_def path_exists_def read_text_def write_text_def print_def
      Let_def)

lemma run_cases:
  obtains (no_icons) "entries fs icons_path = None"
  | (no_b64) "entries fs icons_path \<noteq> None" "entries fs b64_path = None"
  | (b64_fault) e where "entries fs icons_path \<noteq> None" "entries fs b64_path \<noteq> None"
      "text_at fs b64_path = Inl e"
  | (icons_fault) raw e where "entries fs icons_path \<noteq> None" "text_at fs b64_path = Inr raw"
      "text_at fs icons_path = Inl e"
  | (unchanged) content raw where "text_at fs icons_path = Inr content"
      "text_at fs b64_path = Inr raw"
      "new_content (data_uri (strip raw)) content = content"
  | (write_fault) content raw e fs' where "text_at fs icons_path = Inr content"
      "text_at fs b64_path = Inr raw"
      "new_content (data_uri (strip raw)) content \<noteq> content"
      "put_text fs icons_path (new_content (data_uri (strip raw)) content) = (Some e, fs')"
  | (changed) content raw fs' where "text_at fs icons_path = Inr content"
      "text_at fs b64_path = Inr raw"
      "new_content (data_uri (strip raw)) content \<noteq> content"
      "put_text fs icons_path (new_content (data_uri (strip raw)) content) = (None, fs')"
proof (cases "entries fs icons_path = None")
  case True
  then show ?thesis by (rule no_icons)
next
  case i: False
  show ?thesis
  proof (cases "entries fs b64_path = None")
    case True
    with i show ?thesis by (rule no_b64)
  next
    case b: False
    show ?thesis
    proof (cases "text_at fs b64_path")
      case (Inl e)
      with i b show ?thesis by (rule b64_fault)
    next
      case raw: (Inr raw)
      show ?thesis
      proof (cases "text_at fs icons_path")
        case (Inl e)
        with i raw show ?thesis by (rule icons_fault)
      next
        case content: (Inr content)
        show ?thesis
        proof (cases "new_content (data_uri (strip raw)) content = content")
          case True
          with content raw show ?thesis by (rule unchanged)
        next
          case ne: False
          obtain r fs' where
            p: "put_text fs icons_path (new_content (data_uri (strip raw)) content) = (r, fs')"
            by (cases "put_text fs icons_path (new_content (data_uri (strip raw)) content)")
          show ?thesis
          proof (cases r)
            case None
            with content raw ne p show ?thesis using changed by blast
          next
            case (Some e)
            with content raw ne p show ?thesis using write_fault by blast
          qed
        qed
      qed
    qed
  qed
qed

section \<open>What a write changes\<close>

lemma put_text_entries: "put_text fs p s = (r, fs') \<Longrightarrow> entries fs' = entries fs"
  by (auto simp: put_text_def split: option.splits fnode.splits if_splits)

lemma put_text_other:
  "put_text fs p s = (r, fs') \<Longrightarrow> entries fs p \<noteq> Some i \<Longrightarrow> store fs' i = store fs i"
  by (auto simp: put_text_def split: option.splits fnode.splits if_splits)

lemma put_text_ok:
  assumes "put_text fs p s = (None, fs')" "text_at fs p = Inr old"
  shows "text_at fs' p = Inr s"
  using assms
  by (auto simp: put_text_def text_at_def split: option.splits fnode.splits if_splits)

lemma text_at_other:
  assumes "put_text fs p s = (r, fs')" "entries fs q \<noteq> entries fs p"
  shows "text_at fs' q = text_at fs q"
proof (cases "entries fs q")
  case None
  with put_text_entries [OF assms(1)] show ?thesis by (simp add: text_at_def)
next
  case (Some j)
  with assms(2) have "entries fs p \<noteq> Some j" by auto
  from put_text_other [OF assms(1) this] put_text_entries [OF assms(1)] Some
  show ?thesis by (simp add: text_at_def)
qed

lemma text_at_same: "entries fs p = entries fs q \<Longrightarrow> text_at fs p = text_at fs q"
  by (simp add: text_at_def)

lemma io_fault_simps:
  "text_at fs b64_path = Inl e \<Longrightarrow> io_fault fs"
  "text_at fs b64_path = Inr raw \<Longrightarrow> text_at fs icons_path = Inl e \<Longrightarrow> io_fault fs"
  "text_at fs b64_path = Inr raw \<Longrightarrow> text_at fs icons_path = Inr content \<Longrightarrow>
   io_fault fs \<longleftrightarrow>
     new_content (data_uri (strip raw)) content \<noteq> content \<and>
     fst (put_text fs icons_path (new_content (data_uri (strip raw)) content)) \<noteq> None"
  by (simp_all add: io_fault_def)

section \<open>Apostrophes\<close>

lemma sq_not_space: "\<not> py_isspace sq"
  by (simp add: py_isspace_def)

lemma sq_in_strip:
  assumes "sq \<in> set raw"
  shows "sq \<in> set (strip raw)"
proof -
  from strip_decompose [of raw] obtain l r where d: "raw = l @ strip raw @ r"
    and l: "\<forall>c\<in>set l. py_isspace c" and r: "\<forall>c\<in>set r. py_isspace c" by blast
  from assms d have "sq \<in> set l \<union> set (strip raw) \<union> set r"
    by (metis set_append Un_assoc)
  with l r sq_not_space show ?thesis by blast
qed

lemma target_has_sq:
  assumes "sublist target_mask s \<or> sublist target_webkit s"
  shows "sq \<in> set s"
proof -
  have "sq \<in> set target_mask" "sq \<in> set target_webkit"
    by (simp_all add: target_mask_def target_webkit_def)
  with assms show ?thesis using set_mono_sublist by blast
qed

lemma changed_target:
  assumes "new_content uri s \<noteq> s"
  shows "sublist target_mask s \<or> sublist target_webkit s"
  using assms new_content_absent by blast

section \<open>The two calls on any data URI\<close>

text \<open>
  The facts of this section hold for every data URI, also one that contains a target.
\<close>

lemma targets_apart:
  "apart target_mask target_mask" "apart target_mask target_webkit"
  "apart target_webkit target_mask" "apart target_webkit target_webkit"
proof -
  have e: "sq \<notin> set []" by simp
  show "apart target_mask target_mask" "apart target_mask target_webkit"
    "apart target_webkit target_mask" "apart target_webkit target_webkit"
    using tokens_apart [OF e] tokens_mem [of "[]"] by blast+
qed

lemma replacement_tail: "\<exists>v. replacement_mask uri = v @ [CHR '')'', sq]"
proof -
  have "replacement_mask uri = (''maskImage: '' @ [sq] @ ''url('' @ [dq] @ uri @ [dq]) @ [CHR '')'', sq]"
    by (simp add: replacement_mask_def)
  then show ?thesis by blast
qed

lemma webkit_inside_mask_replacement:
  assumes a: "a \<noteq> []" "suffix a (replacement_mask uri)"
    and p: "prefix target_webkit (a @ Y)"
  shows "prefix target_webkit a"
proof -
  from p have "prefix target_webkit a \<or> (\<exists>us. target_webkit = a @ us \<and> prefix us Y)"
    by (simp add: prefix_append)
  then show ?thesis
  proof
    assume "prefix target_webkit a"
    then show ?thesis .
  next
    assume "\<exists>us. target_webkit = a @ us \<and> prefix us Y"
    then obtain us where t: "target_webkit = a @ us" by blast
    from replacement_tail obtain v where rv: "replacement_mask uri = v @ [CHR '')'', sq]" by blast
    from a(2) obtain x where rx: "replacement_mask uri = x @ a" by (auto simp: suffix_def)
    have "us = []"
    proof (cases "length a = 1")
      case True
      with rx rv have "a = [sq]"
        by (cases a) (auto simp: append_eq_append_conv2 Cons_eq_append_conv)
      with t have "target_webkit = sq # us" by simp
      then have "hd target_webkit = sq" by (metis list.sel(1))
      with framed_hd [OF framed_targets(2)] show ?thesis by blast
    next
      case False
      moreover from a(1) have "length a \<noteq> 0" by simp
      ultimately have "2 \<le> length a" by arith
      then have "drop (length (replacement_mask uri) - 2) (replacement_mask uri) =
                 drop (length a - 2) a"
        unfolding rx by simp
      moreover have "drop (length (replacement_mask uri) - 2) (replacement_mask uri) =
                     [CHR '')'', sq]"
        unfolding rv by simp
      ultimately have "take (length a - 2) a @ [CHR '')'', sq] = a"
        using append_take_drop_id [of "length a - 2" a] by simp
      then obtain a' where "a = a' @ [CHR '')'', sq]" by metis
      with t have "target_webkit = a' @ [CHR '')'', sq] @ us" by simp
      from framed_end [OF framed_targets(2) this] show ?thesis .
    qed
    with t show ?thesis by simp
  qed
qed

lemma webkit_not_into_mask_replacement:
  assumes k: "0 < k" "k < length target_webkit"
  shows "\<not> prefix (drop k target_webkit) (replacement_mask uri @ Y)"
proof
  let ?b = "drop k target_webkit"
  let ?h = "''maskImage: '' @ [sq] @ ''url('' @ [dq]"
  assume p: "prefix ?b (replacement_mask uri @ Y)"
  have b: "?b \<noteq> []" "suffix ?b target_webkit" using k by (simp_all add: suffix_drop)
  have r: "replacement_mask uri @ Y = ?h @ (uri @ [dq] @ '')'' @ [sq] @ Y)"
    by (simp add: replacement_mask_def)
  have "prefix ?h (replacement_mask uri @ Y)" unfolding r by (rule prefixI) simp
  from prefix_same_cases [OF p this] show False
  proof
    assume "prefix ?b ?h"
    moreover have "prefix ?h (replacement_mask (data_uri []))"
      by (simp add: replacement_mask_def data_uri_def)
    ultimately have "prefix ?b (replacement_mask (data_uri []))"
      using prefix_order.trans by blast
    moreover have "apart target_webkit (replacement_mask (data_uri []))"
      by (rule tokens_apart [of "[]"]) (simp_all add: tokens_mem)
    ultimately have "replacement_mask (data_uri []) = target_webkit"
      using b unfolding apart_def by blast
    then show False using tokens_neq by simp
  next
    assume "prefix ?h ?b"
    then obtain z where "?b = ?h @ z" by (auto simp: prefix_def)
    moreover from b(2) obtain y where "target_webkit = y @ ?b" by (auto simp: suffix_def)
    ultimately have "target_webkit = y @ ?h @ z" by simp
    then have "sublist ?h target_webkit" unfolding sublist_def by blast
    then show False by (simp add: target_webkit_def sublist_code)
  qed
qed

lemma prefix_webkit_back:
  "prefix (drop k target_webkit) (replace target_mask (replacement_mask uri) s) \<Longrightarrow>
   k < length target_webkit \<Longrightarrow> (k = 0 \<longrightarrow> \<not> prefix target_mask s) \<Longrightarrow>
   prefix (drop k target_webkit) s"
proof (induction s arbitrary: k rule: length_induct)
  case (1 s)
  note ne = targets_nonempty(1)
  show ?case
  proof (cases s)
    case Nil
    with "1.prems" ne show ?thesis by (simp add: replace_Nil)
  next
    case (Cons c cs)
    show ?thesis
    proof (cases "prefix target_mask s")
      case True
      then obtain rest where s: "s = target_mask @ rest" by (auto simp: prefix_def)
      with "1.prems"(3) True have k: "0 < k" by auto
      from "1.prems"(1) have "prefix (drop k target_webkit)
          (replacement_mask uri @ replace target_mask (replacement_mask uri) rest)"
        unfolding s by (simp add: replace_match ne)
      with webkit_not_into_mask_replacement [OF k "1.prems"(2)] show ?thesis by blast
    next
      case False
      then have rs: "replace target_mask (replacement_mask uri) s =
                     c # replace target_mask (replacement_mask uri) cs"
        unfolding Cons using ne by (simp add: replace_step)
      have dk: "drop k target_webkit = target_webkit ! k # drop (Suc k) target_webkit"
        using "1.prems"(2) by (simp add: Cons_nth_drop_Suc)
      from "1.prems"(1) have c: "target_webkit ! k = c"
        and p: "prefix (drop (Suc k) target_webkit)
                  (replace target_mask (replacement_mask uri) cs)"
        unfolding rs dk by simp_all
      have "prefix (drop (Suc k) target_webkit) cs"
      proof (cases "Suc k < length target_webkit")
        case True
        have "length cs < length s" unfolding Cons by simp
        with "1.IH" p True show ?thesis by blast
      next
        case False
        then show ?thesis by simp
      qed
      with c show ?thesis unfolding dk Cons by simp
    qed
  qed
qed

lemma replace_append:
  assumes "t \<noteq> []"
  shows "(\<And>a. a \<noteq> [] \<Longrightarrow> suffix a u \<Longrightarrow> prefix t (a @ v) \<Longrightarrow> prefix t a) \<Longrightarrow>
         replace t r (u @ v) = replace t r u @ replace t r v"
proof (induction u rule: length_induct)
  case (1 u)
  show ?case
  proof (cases u)
    case Nil
    then show ?thesis using assms by (simp add: replace_Nil)
  next
    case (Cons c cs)
    show ?thesis
    proof (cases "prefix t u")
      case True
      then obtain u' where u: "u = t @ u'" by (auto simp: prefix_def)
      have l: "length u' < length u" unfolding u using assms by simp
      have "\<And>a. a \<noteq> [] \<Longrightarrow> suffix a u' \<Longrightarrow> prefix t (a @ v) \<Longrightarrow> prefix t a"
        using "1.prems" unfolding u by (simp add: suffix_appendI)
      with "1.IH" l have "replace t r (u' @ v) = replace t r u' @ replace t r v" by blast
      then show ?thesis unfolding u using replace_match [OF assms, of r "u' @ v"]
        replace_match [OF assms, of r u'] by simp
    next
      case False
      have "\<not> prefix t (u @ v)"
      proof
        assume "prefix t (u @ v)"
        moreover have "u \<noteq> []" "suffix u u" unfolding Cons by simp_all
        ultimately have "prefix t u" using "1.prems" by blast
        with False show False ..
      qed
      then have e1: "replace t r (u @ v) = c # replace t r (cs @ v)"
        unfolding Cons using assms by (simp add: replace_step)
      from False have e2: "replace t r u = c # replace t r cs"
        unfolding Cons using assms by (simp add: replace_step)
      have "\<And>a. a \<noteq> [] \<Longrightarrow> suffix a cs \<Longrightarrow> prefix t (a @ v) \<Longrightarrow> prefix t a"
        using "1.prems" unfolding Cons by (simp add: suffix_ConsI)
      moreover have "length cs < length u" unfolding Cons by simp
      ultimately have "replace t r (cs @ v) = replace t r cs @ replace t r v"
        using "1.IH" by blast
      with e1 e2 show ?thesis by simp
    qed
  qed
qed

lemma new_content_Nil: "new_content uri [] = []"
  by (simp add: new_content_def replace_Nil targets_nonempty)

lemma new_content_mask:
  "new_content uri (target_mask @ rest) = inserted uri target_mask @ new_content uri rest"
proof -
  let ?rm = "replacement_mask uri" and ?rw = "replacement_webkit uri"
  have "replace target_webkit ?rw (?rm @ replace target_mask ?rm rest) =
        replace target_webkit ?rw ?rm @ replace target_webkit ?rw (replace target_mask ?rm rest)"
    by (rule replace_append [OF targets_nonempty(2)]) (rule webkit_inside_mask_replacement)
  then show ?thesis
    by (simp add: new_content_def inserted_def replace_match targets_nonempty)
qed

lemma new_content_webkit:
  "new_content uri (target_webkit @ rest) = inserted uri target_webkit @ new_content uri rest"
proof -
  let ?rm = "replacement_mask uri" and ?rw = "replacement_webkit uri"
  have d: "target_webkit \<noteq> target_mask" using tokens_neq by simp
  have "replace target_mask ?rm (target_webkit @ rest) =
        target_webkit @ replace target_mask ?rm rest"
    by (rule replace_skip [OF targets_nonempty(1) apart_clear [OF targets_apart(3) d]])
  then show ?thesis
    using d by (simp add: new_content_def inserted_def replace_match targets_nonempty)
qed

lemma new_content_step:
  assumes "\<not> prefix target_mask (c # cs)" "\<not> prefix target_webkit (c # cs)"
  shows "new_content uri (c # cs) = c # new_content uri cs"
proof -
  let ?rm = "replacement_mask uri" and ?rw = "replacement_webkit uri"
  have e: "replace target_mask ?rm (c # cs) = c # replace target_mask ?rm cs"
    using assms(1) by (simp add: replace_step targets_nonempty)
  have "\<not> prefix target_webkit (replace target_mask ?rm (c # cs))"
  proof
    assume "prefix target_webkit (replace target_mask ?rm (c # cs))"
    then have "prefix (drop 0 target_webkit) (replace target_mask ?rm (c # cs))" by simp
    from prefix_webkit_back [OF this] targets_nonempty(2) assms show False by simp
  qed
  then show ?thesis
    unfolding new_content_def e by (simp add: replace_step targets_nonempty)
qed

lemma count_heads:
  "count_occ target_mask (target_mask @ rest) = Suc (count_occ target_mask rest)"
  "count_occ target_webkit (target_mask @ rest) = count_occ target_webkit rest"
  "count_occ target_webkit (target_webkit @ rest) = Suc (count_occ target_webkit rest)"
  "count_occ target_mask (target_webkit @ rest) = count_occ target_mask rest"
proof -
  have d: "target_mask \<noteq> target_webkit" "target_webkit \<noteq> target_mask"
    using tokens_neq by simp_all
  show "count_occ target_mask (target_mask @ rest) = Suc (count_occ target_mask rest)"
    by (rule count_self [OF targets_apart(1) targets_nonempty(1)])
  show "count_occ target_webkit (target_webkit @ rest) = Suc (count_occ target_webkit rest)"
    by (rule count_self [OF targets_apart(4) targets_nonempty(2)])
  show "count_occ target_webkit (target_mask @ rest) = count_occ target_webkit rest"
    by (rule count_skip [OF apart_clear [OF targets_apart(2) d(1)]])
  show "count_occ target_mask (target_webkit @ rest) = count_occ target_mask rest"
    by (rule count_skip [OF apart_clear [OF targets_apart(3) d(2)]])
qed

lemma not_sublist_Cons:
  assumes "\<not> prefix t (c # x)" "\<not> sublist t x"
  shows "\<not> sublist t (c # x)"
  using assms by (simp add: sublist_Cons_right)

lemma inserted_simps:
  "inserted uri target_webkit = replacement_webkit uri"
  "sq \<notin> set payload \<Longrightarrow>
   inserted (data_uri payload) target_mask = replacement_mask (data_uri payload)"
proof -
  show "inserted uri target_webkit = replacement_webkit uri"
    using tokens_neq by (simp add: inserted_def)
  assume p: "sq \<notin> set payload"
  have "count_occ target_webkit (replacement_mask (data_uri payload)) = 0"
  proof -
    have "apart (replacement_mask (data_uri payload)) target_webkit"
      by (rule tokens_apart [OF p]) (simp_all add: tokens_mem)
    moreover have "replacement_mask (data_uri payload) \<noteq> target_webkit"
      using tokens_neq by simp
    ultimately have "clear target_webkit (replacement_mask (data_uri payload)) []"
      by (rule apart_clear)
    from count_skip [OF this] show ?thesis using targets_nonempty by simp
  qed
  then show "inserted (data_uri payload) target_mask = replacement_mask (data_uri payload)"
    by (simp add: inserted_def replace_id targets_nonempty)
qed

section \<open>Runs on concrete inputs\<close>

lemma example_fs_reads:
  "text_at (example_fs content raw) icons_path = Inr content"
  "text_at (example_fs content raw) b64_path = Inr raw"
  using paths_distinct by (simp_all add: example_fs_def text_at_def)

lemma example_fs_put:
  "put_text (example_fs content raw) icons_path s = (None, example_fs s raw)"
  using paths_distinct by (simp add: example_fs_def put_text_def fun_eq_iff)

lemma example_fs_entries:
  "entries (example_fs content raw) icons_path \<noteq> entries (example_fs content raw) b64_path"
  using paths_distinct by (simp add: example_fs_def)

lemma plain_counts:
  "count_occ target_mask plain_source = 1"
  "count_occ target_webkit plain_source = 1"
  by (simp_all add: plain_source_def target_mask_def target_webkit_def)

lemma plain_sublist: "sublist target_mask plain_source"
  using count_pos_sublist [OF targets_nonempty(1), of plain_source] plain_counts by simp

lemma plain_changed: "new_content (data_uri b) plain_source \<noteq> plain_source"
  using plain_sublist by (simp add: new_content_present)

lemma example_run_changed:
  "run (example_fs plain_source raw) =
     (0, \<lparr>files = example_fs (new_content (data_uri (strip raw)) plain_source) raw,
           trace = [PathExists icons_path, PathExists b64_path, Read b64_path,
                    Read icons_path,
                    Write icons_path (new_content (data_uri (strip raw)) plain_source),
                    Print success_message]\<rparr>)"
  by (rule run_changed [OF example_fs_reads plain_changed example_fs_put])

lemma directory_fs_facts:
  "entries directory_fs icons_path \<noteq> None" "entries directory_fs b64_path \<noteq> None"
  "text_at directory_fs b64_path = Inr ''abcd''"
  "text_at directory_fs icons_path = Inl IsADirectoryError"
  using paths_distinct by (simp_all add: directory_fs_def text_at_def)

lemma linked_fs_reads:
  "text_at linked_fs icons_path = Inr target_mask" "text_at linked_fs b64_path = Inr target_mask"
  by (simp_all add: linked_fs_def text_at_def)

section \<open>The claims\<close>

subsection \<open>Each target once\<close>

text \<open>
  Claim C1, amended. Let the payload contain no apostrophe (every base64 payload is such)
  and let the source text contain each of the two targets exactly once. Then the new text
  contains neither target, and it contains each replacement string exactly once more than
  the source text did: exactly once when the source text held none. Both replacement
  strings embed the same data URI.
\<close>

theorem exact_two_site_substitution:
  assumes "sq \<notin> set payload"
    and "count_occ target_mask content = 1" "count_occ target_webkit content = 1"
  shows "count_occ target_mask (new_content (data_uri payload) content) = 0 \<and>
         count_occ target_webkit (new_content (data_uri payload) content) = 0 \<and>
         count_occ (replacement_mask (data_uri payload)) (new_content (data_uri payload) content) =
           count_occ (replacement_mask (data_uri payload)) content + 1 \<and>
         count_occ (replacement_webkit (data_uri payload)) (new_content (data_uri payload) content) =
           count_occ (replacement_webkit (data_uri payload)) content + 1 \<and>
         sublist (data_uri payload) (replacement_mask (data_uri payload)) \<and>
         sublist (data_uri payload) (replacement_webkit (data_uri payload))"
  using counts_after [OF assms(1), of content] assms(2,3) uri_embedded [of "data_uri payload"]
  by simp

theorem exact_two_site_substitution_witness:
  "sq \<notin> set ''abcd1234=='' \<and>
   count_occ target_mask plain_source = 1 \<and>
   count_occ target_webkit plain_source = 1 \<and>
   count_occ (replacement_mask (data_uri ''abcd1234=='')) plain_source = 0 \<and>
   count_occ (replacement_webkit (data_uri ''abcd1234=='')) plain_source = 0 \<and>
   count_occ target_mask (new_content (data_uri ''abcd1234=='') plain_source) = 0 \<and>
   count_occ target_webkit (new_content (data_uri ''abcd1234=='') plain_source) = 0 \<and>
   count_occ (replacement_mask (data_uri ''abcd1234==''))
     (new_content (data_uri ''abcd1234=='') plain_source) = 1 \<and>
   count_occ (replacement_webkit (data_uri ''abcd1234==''))
     (new_content (data_uri ''abcd1234=='') plain_source) = 1"
proof -
  have z: "count_occ (replacement_mask (data_uri ''abcd1234=='')) plain_source = 0"
    "count_occ (replacement_webkit (data_uri ''abcd1234=='')) plain_source = 0"
    by (simp_all add: plain_source_def target_mask_def target_webkit_def replacement_mask_def
        replacement_webkit_def data_uri_def)
  from exact_two_site_substitution [OF no_sq_example plain_counts] z no_sq_example plain_counts
  show ?thesis by simp
qed

theorem exact_two_site_substitution_counterexample:
  "count_occ target_mask seeded_source = 1 \<and>
   count_occ target_webkit seeded_source = 1 \<and>
   count_occ (replacement_mask (data_uri ''abcd'')) (new_content (data_uri ''abcd'') seeded_source) = 2 \<and>
   count_occ target_mask plain_source = 1 \<and>
   count_occ target_webkit plain_source = 1 \<and>
   count_occ target_mask (new_content (data_uri target_mask) plain_source) = 2"
proof -
  have a: "count_occ target_mask seeded_source = 1" "count_occ target_webkit seeded_source = 1"
    by (simp_all add: seeded_source_def plain_source_def target_mask_def target_webkit_def
        replacement_mask_def data_uri_def)
  have b: "new_content (data_uri ''abcd'') seeded_source =
           replacement_mask (data_uri ''abcd'') @ '', '' @
           replacement_mask (data_uri ''abcd'') @ '', '' @ replacement_webkit (data_uri ''abcd'')"
    by (simp add: new_content_def seeded_source_def plain_source_def target_mask_def
        target_webkit_def replacement_mask_def replacement_webkit_def data_uri_def)
  have c: "count_occ (replacement_mask (data_uri ''abcd''))
             (new_content (data_uri ''abcd'') seeded_source) = 2"
    unfolding b
    by (simp add: replacement_mask_def replacement_webkit_def data_uri_def)
  have d: "new_content (data_uri target_mask) plain_source =
           replacement_mask (data_uri target_mask) @ '', '' @
           replacement_webkit (data_uri target_mask)"
    by (simp add: new_content_def plain_source_def target_mask_def
        target_webkit_def replacement_mask_def replacement_webkit_def data_uri_def)
  have e: "count_occ target_mask (new_content (data_uri target_mask) plain_source) = 2"
    unfolding d
    by (simp add: target_mask_def replacement_mask_def replacement_webkit_def data_uri_def)
  from a c plain_counts e show ?thesis by simp
qed

subsection \<open>The order of the two replacements\<close>

text \<open>
  Claim C2, amended. Let the payload contain no apostrophe (every base64 payload is
  such). Then for every source text the two replacements give the same text in either
  order, and neither changes the number of places where the other's target starts.
\<close>

theorem replacements_commute:
  assumes "sq \<notin> set payload"
  shows "new_content (data_uri payload) content =
           replace target_mask (replacement_mask (data_uri payload))
             (replace target_webkit (replacement_webkit (data_uri payload)) content) \<and>
         count_occ target_webkit (replace target_mask (replacement_mask (data_uri payload)) content) =
           count_occ target_webkit content \<and>
         count_occ target_mask (replace target_webkit (replacement_webkit (data_uri payload)) content) =
           count_occ target_mask content"
  using new_content_commute [OF assms, of content] match_sites_kept [OF assms, of content]
  by simp

theorem replacements_commute_witness:
  "sq \<notin> set ''abcd1234=='' \<and>
   new_content (data_uri ''abcd1234=='') plain_source =
     replace target_mask (replacement_mask (data_uri ''abcd1234==''))
       (replace target_webkit (replacement_webkit (data_uri ''abcd1234=='')) plain_source) \<and>
   count_occ target_webkit
       (replace target_mask (replacement_mask (data_uri ''abcd1234=='')) plain_source) = 1"
  using replacements_commute [OF no_sq_example, of plain_source] no_sq_example plain_counts
  by simp

theorem replacements_commute_counterexample:
  "new_content (data_uri target_webkit) target_mask \<noteq>
     replace target_mask (replacement_mask (data_uri target_webkit))
       (replace target_webkit (replacement_webkit (data_uri target_webkit)) target_mask)"
  by (simp add: new_content_def target_mask_def target_webkit_def replacement_mask_def
      replacement_webkit_def data_uri_def)

subsection \<open>Running twice\<close>

text \<open>
  Claim C3, amended. Let both files be readable as text and let the stripped payload
  contain no apostrophe (every base64 payload is such). Then substituting in the already
  substituted text changes nothing; and when the first run ends with status 0, a second
  run of the script on the files the first run left prints the no-change warning, writes
  nothing and leaves the files as the first run left them. This holds too when the two
  paths name the same file.
\<close>

theorem substitution_idempotent:
  assumes "text_at fs icons_path = Inr content" "text_at fs b64_path = Inr raw"
    and "sq \<notin> set (strip raw)"
  shows "new_content (data_uri (strip raw)) (new_content (data_uri (strip raw)) content) =
           new_content (data_uri (strip raw)) content \<and>
         (exit_status fs = 0 \<longrightarrow>
            files_after (files_after fs) = files_after fs \<and>
            written (trace_of (files_after fs)) = [] \<and>
            printed (trace_of (files_after fs)) = [warning_message])"
proof -
  let ?new = "new_content (data_uri (strip raw)) content"
  have idem: "new_content (data_uri (strip raw)) ?new = ?new"
    using assms(3) by (rule new_content_idem)
  have second: "files_after (files_after fs) = files_after fs \<and>
      written (trace_of (files_after fs)) = [] \<and>
      printed (trace_of (files_after fs)) = [warning_message]" if ok: "exit_status fs = 0"
  proof (cases "?new = content")
    case True
    from run_unchanged [where fs = fs, OF assms(1,2) True]
    have "files_after fs = fs" "written (trace_of fs) = []"
      "printed (trace_of fs) = [warning_message]"
      by (simp_all add: files_after_def trace_of_def)
    then show ?thesis by simp
  next
    case False
    obtain r fs' where p: "put_text fs icons_path ?new = (r, fs')"
      by (cases "put_text fs icons_path ?new")
    have r: "r = None"
    proof (cases r)
      case None
      then show ?thesis .
    next
      case (Some e)
      from run_write_fault [where fs = fs, OF assms(1,2) False p [unfolded Some]] ok
      show ?thesis by (simp add: exit_status_def)
    qed
    from run_changed [where fs = fs, OF assms(1,2) False p [unfolded r]]
    have f: "files_after fs = fs'" by (simp add: files_after_def)
    have a: "text_at fs' icons_path = Inr ?new"
      using put_text_ok [OF p [unfolded r] assms(1)] .
    have d: "entries fs b64_path \<noteq> entries fs icons_path"
    proof
      assume "entries fs b64_path = entries fs icons_path"
      from text_at_same [OF this] assms(1,2) have "raw = content" by simp
      moreover from changed_target [OF False] have "sq \<in> set content" by (rule target_has_sq)
      ultimately have "sq \<in> set (strip raw)" using sq_in_strip by blast
      with assms(3) show False by simp
    qed
    have b: "text_at fs' b64_path = Inr raw"
      using text_at_other [OF p d] assms(2) by simp
    from run_unchanged [where fs = fs', OF a b idem]
    have "files_after fs' = fs'" "written (trace_of fs') = []"
      "printed (trace_of fs') = [warning_message]"
      by (simp_all add: files_after_def trace_of_def)
    with f show ?thesis by simp
  qed
  from idem second show ?thesis by blast
qed

theorem substitution_idempotent_witness:
  "text_at (example_fs plain_source ''abcd1234=='') icons_path = Inr plain_source \<and>
   text_at (example_fs plain_source ''abcd1234=='') b64_path = Inr ''abcd1234=='' \<and>
   sq \<notin> set (strip ''abcd1234=='') \<and>
   exit_status (example_fs plain_source ''abcd1234=='') = 0 \<and>
   files_after (files_after (example_fs plain_source ''abcd1234=='')) =
     files_after (example_fs plain_source ''abcd1234=='') \<and>
   printed (trace_of (files_after (example_fs plain_source ''abcd1234==''))) = [warning_message]"
proof -
  have s: "sq \<notin> set (strip ''abcd1234=='')" by (simp add: strip_def py_isspace_def)
  have x: "exit_status (example_fs plain_source ''abcd1234=='') = 0"
    by (simp add: exit_status_def example_run_changed)
  from substitution_idempotent
    [of "example_fs plain_source ''abcd1234==''" plain_source "''abcd1234==''",
      OF example_fs_reads s] example_fs_reads s x
  show ?thesis by blast
qed

theorem substitution_idempotent_counterexample:
  "new_content (data_uri target_mask) (new_content (data_uri target_mask) target_mask) \<noteq>
   new_content (data_uri target_mask) target_mask"
  by (simp add: new_content_def target_mask_def target_webkit_def replacement_mask_def
      replacement_webkit_def data_uri_def)

subsection \<open>The no-op run\<close>

text \<open>
  Claim C4. When both files are readable as text and the source text contains neither
  target, the substituted text equals the source text, the run prints the no-change
  warning and nothing else, writes no file, leaves the file system as it was, and exits
  with status 0.
\<close>

theorem no_target_no_write:
  assumes "text_at fs icons_path = Inr content" "text_at fs b64_path = Inr raw"
    and "\<not> sublist target_mask content" "\<not> sublist target_webkit content"
  shows "new_content (data_uri (strip raw)) content = content \<and>
         printed (trace_of fs) = [warning_message] \<and>
         written (trace_of fs) = [] \<and>
         files_after fs = fs \<and>
         exit_status fs = 0"
proof -
  have e: "new_content (data_uri (strip raw)) content = content"
    using assms(3,4) by (rule new_content_absent)
  from run_unchanged [where fs = fs, OF assms(1,2) e] show ?thesis
    by (simp add: e trace_of_def files_after_def exit_status_def)
qed

theorem no_target_no_write_witness:
  "text_at (example_fs ''export default Icons'' ''abcd'') icons_path
     = Inr ''export default Icons'' \<and>
   text_at (example_fs ''export default Icons'' ''abcd'') b64_path = Inr ''abcd'' \<and>
   \<not> sublist target_mask ''export default Icons'' \<and>
   \<not> sublist target_webkit ''export default Icons'' \<and>
   printed (trace_of (example_fs ''export default Icons'' ''abcd'')) = [warning_message] \<and>
   written (trace_of (example_fs ''export default Icons'' ''abcd'')) = [] \<and>
   files_after (example_fs ''export default Icons'' ''abcd'')
     = example_fs ''export default Icons'' ''abcd'' \<and>
   exit_status (example_fs ''export default Icons'' ''abcd'') = 0"
proof -
  have c: "\<not> sublist target_mask ''export default Icons''"
    by (simp add: target_mask_def sublist_code)
  have d: "\<not> sublist target_webkit ''export default Icons''"
    by (simp add: target_webkit_def sublist_code)
  from no_target_no_write [OF example_fs_reads c d] example_fs_reads c d
  show ?thesis by blast
qed

subsection \<open>Missing input files\<close>

text \<open>
  Claim C5. When the icons path or the payload path does not exist, the run ends with a
  non-zero status, having printed the error message for the missing path; no file is read,
  no file is written and the file system is as it was. When the icons path does not exist
  the run consists of the existence check of the icons path and the error message only:
  the payload path is not even looked at.
\<close>

theorem missing_input_fails_fast:
  assumes "entries fs icons_path = None \<or> entries fs b64_path = None"
  shows "exit_status fs \<noteq> 0 \<and>
         files_after fs = fs \<and>
         written (trace_of fs) = [] \<and>
         read_paths (trace_of fs) = [] \<and>
         (entries fs icons_path = None \<longrightarrow>
            trace_of fs = [PathExists icons_path, Print (error_message icons_path)]) \<and>
         (entries fs icons_path \<noteq> None \<longrightarrow>
            printed (trace_of fs) = [error_message b64_path])"
proof (cases "entries fs icons_path = None")
  case True
  from run_no_icons [where fs = fs, OF True] True show ?thesis
    by (simp add: trace_of_def files_after_def exit_status_def)
next
  case False
  with assms have "entries fs b64_path = None" by simp
  from run_no_b64 [where fs = fs, OF False this] False show ?thesis
    by (simp add: trace_of_def files_after_def exit_status_def)
qed

theorem missing_input_fails_fast_witness:
  "entries empty_fs icons_path = None \<and>
   exit_status empty_fs \<noteq> 0 \<and>
   trace_of empty_fs = [PathExists icons_path, Print (error_message icons_path)] \<and>
   entries (icons_only_fs ''x'') icons_path \<noteq> None \<and>
   entries (icons_only_fs ''x'') b64_path = None \<and>
   exit_status (icons_only_fs ''x'') \<noteq> 0 \<and>
   printed (trace_of (icons_only_fs ''x'')) = [error_message b64_path] \<and>
   files_after (icons_only_fs ''x'') = icons_only_fs ''x''"
proof -
  have a: "entries empty_fs icons_path = None" by (simp add: empty_fs_def)
  have b: "entries (icons_only_fs ''x'') icons_path \<noteq> None" by (simp add: icons_only_fs_def)
  have c: "entries (icons_only_fs ''x'') b64_path = None"
    using paths_distinct by (simp add: icons_only_fs_def)
  from a have a': "entries empty_fs icons_path = None \<or> entries empty_fs b64_path = None"
    by simp
  from c have c': "entries (icons_only_fs ''x'') icons_path = None \<or>
                   entries (icons_only_fs ''x'') b64_path = None"
    by simp
  from missing_input_fails_fast [OF a'] missing_input_fails_fast [OF c'] a b c
  show ?thesis by blast
qed

subsection \<open>The data URI\<close>

text \<open>
  Claim C6. Let both files be readable as text, the payload file holding \<open>raw\<close>. The
  text \<open>raw\<close> is some whitespace, \<open>strip raw\<close>, and some whitespace, and \<open>strip raw\<close>
  neither begins nor ends with whitespace: what lies between is kept as it is. The run
  writes exactly when a target occurs in the source text, and the text it writes is the
  source text with the targets replaced by the two replacement strings built around one
  data URI, which is the fixed prefix \<open>data:image/png;base64,\<close> followed by
  \<open>strip raw\<close>. With a payload file holding two spaces, \<open>abcd1234==\<close> and a line feed,
  and the \<open>maskImage\<close> target as source text, the text written is the \<open>maskImage\<close>
  replacement around \<open>data:image/png;base64,abcd1234==\<close>.
\<close>

theorem payload_stripped_and_prefixed:
  assumes "text_at fs icons_path = Inr content" "text_at fs b64_path = Inr raw"
  shows "(\<exists>l r. raw = l @ strip raw @ r \<and>
            (\<forall>c\<in>set l. py_isspace c) \<and> (\<forall>c\<in>set r. py_isspace c)) \<and>
         (strip raw \<noteq> [] \<longrightarrow>
            \<not> py_isspace (hd (strip raw)) \<and> \<not> py_isspace (last (strip raw))) \<and>
         written_texts (trace_of fs) =
           (if sublist target_mask content \<or> sublist target_webkit content
            then [replace target_webkit
                    (''WebkitMaskImage: '' @ [sq] @ ''url('' @ [dq] @
                       (''data:image/png;base64,'' @ strip raw) @ [dq] @ '')'' @ [sq])
                    (replace target_mask
                       (''maskImage: '' @ [sq] @ ''url('' @ [dq] @
                          (''data:image/png;base64,'' @ strip raw) @ [dq] @ '')'' @ [sq])
                       content)]
            else []) \<and>
         written_texts (trace_of (example_fs target_mask (''  abcd1234=='' @ [CHR 0x0A]))) =
           [''maskImage: '' @ [sq] @ ''url('' @ [dq] @ ''data:image/png;base64,abcd1234=='' @
              [dq] @ '')'' @ [sq]]"
proof -
  let ?new = "new_content (data_uri (strip raw)) content"
  have w: "written_texts (trace_of fs) =
           (if sublist target_mask content \<or> sublist target_webkit content then [?new] else [])"
  proof (cases "sublist target_mask content \<or> sublist target_webkit content")
    case True
    then have ne: "?new \<noteq> content" by (rule new_content_present)
    obtain r fs' where p: "put_text fs icons_path ?new = (r, fs')"
      by (cases "put_text fs icons_path ?new")
    show ?thesis
    proof (cases r)
      case None
      from run_changed [where fs = fs, OF assms ne p [unfolded None]] True
      show ?thesis by (simp add: trace_of_def)
    next
      case (Some e)
      from run_write_fault [where fs = fs, OF assms ne p [unfolded Some]] True
      show ?thesis by (simp add: trace_of_def)
    qed
  next
    case False
    then have e: "?new = content" by (simp add: new_content_absent)
    from run_unchanged [where fs = fs, OF assms e] False show ?thesis
      by (simp add: trace_of_def)
  qed
  have n: "?new = replace target_webkit
                    (''WebkitMaskImage: '' @ [sq] @ ''url('' @ [dq] @
                       (''data:image/png;base64,'' @ strip raw) @ [dq] @ '')'' @ [sq])
                    (replace target_mask
                       (''maskImage: '' @ [sq] @ ''url('' @ [dq] @
                          (''data:image/png;base64,'' @ strip raw) @ [dq] @ '')'' @ [sq])
                       content)"
    by (simp only: new_content_def replacement_mask_def replacement_webkit_def data_uri_def)
  have s: "strip (''  abcd1234=='' @ [CHR 0x0A]) = ''abcd1234==''"
    by (simp add: strip_def py_isspace_def)
  have c: "new_content (data_uri ''abcd1234=='') target_mask =
           ''maskImage: '' @ [sq] @ ''url('' @ [dq] @ ''data:image/png;base64,abcd1234=='' @
              [dq] @ '')'' @ [sq]"
    by (simp add: new_content_def target_mask_def target_webkit_def replacement_mask_def
        replacement_webkit_def data_uri_def)
  have ne: "new_content (data_uri (strip (''  abcd1234=='' @ [CHR 0x0A]))) target_mask
            \<noteq> target_mask"
    by (rule new_content_present) simp
  from run_changed [OF example_fs_reads ne example_fs_put]
  have x: "written_texts (trace_of (example_fs target_mask (''  abcd1234=='' @ [CHR 0x0A]))) =
           [new_content (data_uri (strip (''  abcd1234=='' @ [CHR 0x0A]))) target_mask]"
    by (simp add: trace_of_def)
  from strip_decompose [of raw] strip_ends [of raw] w [unfolded n] x [unfolded s c]
  show ?thesis by blast
qed

theorem payload_stripped_and_prefixed_witness:
  "text_at (example_fs plain_source (''  abcd1234=='' @ [CHR 0x0A])) icons_path = Inr plain_source \<and>
   text_at (example_fs plain_source (''  abcd1234=='' @ [CHR 0x0A])) b64_path =
     Inr (''  abcd1234=='' @ [CHR 0x0A]) \<and>
   strip (''  abcd1234=='' @ [CHR 0x0A]) = ''abcd1234=='' \<and>
   sublist target_mask plain_source \<and>
   written_texts (trace_of (example_fs plain_source (''  abcd1234=='' @ [CHR 0x0A]))) =
     [''maskImage: '' @ [sq] @ ''url('' @ [dq] @ ''data:image/png;base64,abcd1234=='' @ [dq] @
        '')'' @ [sq] @ '', '' @
      ''WebkitMaskImage: '' @ [sq] @ ''url('' @ [dq] @ ''data:image/png;base64,abcd1234=='' @
        [dq] @ '')'' @ [sq]]"
proof -
  let ?raw = "''  abcd1234=='' @ [CHR 0x0A]"
  have s: "strip ?raw = ''abcd1234==''"
    by (simp add: strip_def py_isspace_def)
  have e: "replace target_webkit
             (''WebkitMaskImage: '' @ [sq] @ ''url('' @ [dq] @
                (''data:image/png;base64,'' @ ''abcd1234=='') @ [dq] @ '')'' @ [sq])
             (replace target_mask
                (''maskImage: '' @ [sq] @ ''url('' @ [dq] @
                   (''data:image/png;base64,'' @ ''abcd1234=='') @ [dq] @ '')'' @ [sq])
                plain_source) =
           ''maskImage: '' @ [sq] @ ''url('' @ [dq] @ ''data:image/png;base64,abcd1234=='' @ [dq] @
             '')'' @ [sq] @ '', '' @
           ''WebkitMaskImage: '' @ [sq] @ ''url('' @ [dq] @ ''data:image/png;base64,abcd1234=='' @
             [dq] @ '')'' @ [sq]"
    by (simp add: plain_source_def target_mask_def target_webkit_def)
  from payload_stripped_and_prefixed
    [of "example_fs plain_source ?raw" plain_source ?raw, OF example_fs_reads]
  have "written_texts (trace_of (example_fs plain_source ?raw)) =
           (if sublist target_mask plain_source \<or> sublist target_webkit plain_source
            then [replace target_webkit
                    (''WebkitMaskImage: '' @ [sq] @ ''url('' @ [dq] @
                       (''data:image/png;base64,'' @ strip ?raw) @ [dq] @ '')'' @ [sq])
                    (replace target_mask
                       (''maskImage: '' @ [sq] @ ''url('' @ [dq] @
                          (''data:image/png;base64,'' @ strip ?raw) @ [dq] @ '')'' @ [sq])
                       plain_source)]
            else [])"
    by blast
  with plain_sublist have "written_texts (trace_of (example_fs plain_source ?raw)) =
      [replace target_webkit
                    (''WebkitMaskImage: '' @ [sq] @ ''url('' @ [dq] @
                       (''data:image/png;base64,'' @ ''abcd1234=='') @ [dq] @ '')'' @ [sq])
                    (replace target_mask
                       (''maskImage: '' @ [sq] @ ''url('' @ [dq] @
                          (''data:image/png;base64,'' @ ''abcd1234=='') @ [dq] @ '')'' @ [sq])
                       plain_source)]"
    unfolding s by simp
  then have "written_texts (trace_of (example_fs plain_source ?raw)) =
     [''maskImage: '' @ [sq] @ ''url('' @ [dq] @ ''data:image/png;base64,abcd1234=='' @ [dq] @
        '')'' @ [sq] @ '', '' @
      ''WebkitMaskImage: '' @ [sq] @ ''url('' @ [dq] @ ''data:image/png;base64,abcd1234=='' @
        [dq] @ '')'' @ [sq]]"
    unfolding e .
  with example_fs_reads [of plain_source ?raw] s plain_sublist show ?thesis by blast
qed

subsection \<open>All occurrences are replaced\<close>

text \<open>
  Claim C7. For every source text and every data URI: the source text is a sequence of
  pieces, each followed by an occurrence of one of the two targets, and a last piece; no
  piece contains a target, and each target occurs in the source text as often as it
  follows a piece. The two calls of the script, one after the other, return the same
  pieces with every occurrence of the \<open>maskImage\<close> target replaced by one and the same
  string and every occurrence of the \<open>WebkitMaskImage\<close> target replaced by the
  \<open>WebkitMaskImage\<close> replacement. The string put for the \<open>maskImage\<close> target is the
  \<open>maskImage\<close> replacement as the second call leaves it; it is the \<open>maskImage\<close>
  replacement itself when the payload contains no apostrophe.
\<close>

theorem every_occurrence_replaced:
  "(\<exists>segs rest.
      content = concat (map (\<lambda>s. fst s @ snd s) segs) @ rest \<and>
      (\<forall>s\<in>set segs. (snd s = target_mask \<or> snd s = target_webkit) \<and>
         \<not> sublist target_mask (fst s) \<and> \<not> sublist target_webkit (fst s)) \<and>
      \<not> sublist target_mask rest \<and> \<not> sublist target_webkit rest \<and>
      count_occ target_mask content = length (filter (\<lambda>s. snd s = target_mask) segs) \<and>
      count_occ target_webkit content = length (filter (\<lambda>s. snd s = target_webkit) segs) \<and>
      new_content uri content = concat (map (\<lambda>s. fst s @ inserted uri (snd s)) segs) @ rest) \<and>
   inserted uri target_webkit = replacement_webkit uri \<and>
   (sq \<notin> set payload \<longrightarrow>
      inserted (data_uri payload) target_mask = replacement_mask (data_uri payload))"
proof -
  define good :: "(string \<times> string) list \<Rightarrow> string \<Rightarrow> bool" where
    "good = (\<lambda>segs rest.
       (\<forall>s\<in>set segs. (snd s = target_mask \<or> snd s = target_webkit) \<and>
          \<not> sublist target_mask (fst s) \<and> \<not> sublist target_webkit (fst s)) \<and>
       \<not> sublist target_mask rest \<and> \<not> sublist target_webkit rest)"
  define flat :: "(string \<times> string) list \<Rightarrow> string \<Rightarrow> string" where
    "flat = (\<lambda>segs rest. concat (map (\<lambda>s. fst s @ snd s) segs) @ rest)"
  define out :: "(string \<times> string) list \<Rightarrow> string \<Rightarrow> string" where
    "out = (\<lambda>segs rest. concat (map (\<lambda>s. fst s @ inserted uri (snd s)) segs) @ rest)"
  define nm :: "(string \<times> string) list \<Rightarrow> nat" where
    "nm = (\<lambda>segs. length (filter (\<lambda>s. snd s = target_mask) segs))"
  define nw :: "(string \<times> string) list \<Rightarrow> nat" where
    "nw = (\<lambda>segs. length (filter (\<lambda>s. snd s = target_webkit) segs))"
  have d: "target_mask \<noteq> target_webkit" "target_webkit \<noteq> target_mask"
    using tokens_neq by simp_all
  have layout: "\<exists>segs rest. src = flat segs rest \<and> good segs rest \<and>
      count_occ target_mask src = nm segs \<and> count_occ target_webkit src = nw segs \<and>
      new_content uri src = out segs rest" for src
  proof (induction src rule: length_induct)
    case (1 src)
    show ?case
    proof (cases src)
      case Nil
      have "src = flat [] [] \<and> good [] [] \<and>
        count_occ target_mask src = nm [] \<and> count_occ target_webkit src = nw [] \<and>
        new_content uri src = out [] []"
        unfolding Nil using targets_nonempty
        by (simp add: flat_def good_def nm_def nw_def out_def new_content_Nil)
      then show ?thesis by blast
    next
      case (Cons c cs)
      consider (m) "prefix target_mask src"
        | (w) "prefix target_webkit src"
        | (n) "\<not> prefix target_mask src" "\<not> prefix target_webkit src"
        by blast
      then show ?thesis
      proof cases
        case m
        then obtain r' where t: "src = target_mask @ r'" by (auto simp: prefix_def)
        have "length r' < length src" unfolding t using targets_nonempty by simp
        with "1.IH" obtain segs rest where ih: "r' = flat segs rest" "good segs rest"
          "count_occ target_mask r' = nm segs" "count_occ target_webkit r' = nw segs"
          "new_content uri r' = out segs rest" by blast
        let ?segs = "([], target_mask) # segs"
        have "src = flat ?segs rest" unfolding t using ih(1) by (simp add: flat_def)
        moreover have "good ?segs rest"
          using ih(2) targets_nonempty by (simp add: good_def)
        moreover have "count_occ target_mask src = nm ?segs"
          unfolding t using ih(3) by (simp add: count_heads nm_def)
        moreover have "count_occ target_webkit src = nw ?segs"
          unfolding t using ih(4) d by (simp add: count_heads nw_def)
        moreover have "new_content uri src = out ?segs rest"
          unfolding t using ih(5) by (simp add: new_content_mask out_def)
        ultimately show ?thesis by blast
      next
        case w
        then obtain r' where t: "src = target_webkit @ r'" by (auto simp: prefix_def)
        have "length r' < length src" unfolding t using targets_nonempty by simp
        with "1.IH" obtain segs rest where ih: "r' = flat segs rest" "good segs rest"
          "count_occ target_mask r' = nm segs" "count_occ target_webkit r' = nw segs"
          "new_content uri r' = out segs rest" by blast
        let ?segs = "([], target_webkit) # segs"
        have "src = flat ?segs rest" unfolding t using ih(1) by (simp add: flat_def)
        moreover have "good ?segs rest"
          using ih(2) targets_nonempty by (simp add: good_def)
        moreover have "count_occ target_mask src = nm ?segs"
          unfolding t using ih(3) d by (simp add: count_heads nm_def)
        moreover have "count_occ target_webkit src = nw ?segs"
          unfolding t using ih(4) by (simp add: count_heads nw_def)
        moreover have "new_content uri src = out ?segs rest"
          unfolding t using ih(5) by (simp add: new_content_webkit out_def)
        ultimately show ?thesis by blast
      next
        case n
        from n have pm: "\<not> prefix target_mask (c # cs)" and pw: "\<not> prefix target_webkit (c # cs)"
          unfolding Cons by simp_all
        have "length cs < length src" unfolding Cons by simp
        with "1.IH" obtain segs rest where ih: "cs = flat segs rest" "good segs rest"
          "count_occ target_mask cs = nm segs" "count_occ target_webkit cs = nw segs"
          "new_content uri cs = out segs rest" by blast
        have cm: "count_occ target_mask src = nm segs"
          unfolding Cons using pm ih(3) by simp
        have cw: "count_occ target_webkit src = nw segs"
          unfolding Cons using pw ih(4) by simp
        have nc: "new_content uri src = c # out segs rest"
          unfolding Cons using new_content_step [OF pm pw] ih(5) by simp
        show ?thesis
        proof (cases segs)
          case Nil
          have f: "src = flat [] (c # rest)"
            unfolding Cons using ih(1) Nil by (simp add: flat_def)
          from ih(1) Nil have cr: "cs = rest" by (simp add: flat_def)
          have "good [] (c # rest)"
            using ih(2) pm pw unfolding cr Nil by (simp add: good_def not_sublist_Cons)
          moreover have "new_content uri src = out [] (c # rest)"
            using nc Nil by (simp add: out_def)
          moreover note f cm cw
          ultimately have "src = flat [] (c # rest) \<and> good [] (c # rest) \<and>
            count_occ target_mask src = nm [] \<and> count_occ target_webkit src = nw [] \<and>
            new_content uri src = out [] (c # rest)"
            using Nil by simp
          then show ?thesis by blast
        next
          case (Cons s segs')
          obtain x t where s: "s = (x, t)" by (cases s)
          let ?segs = "(c # x, t) # segs'"
          have px: "prefix (c # x) (c # cs)"
            using ih(1) unfolding Cons s by (simp add: flat_def)
          have "\<not> prefix target_mask (c # x)" "\<not> prefix target_webkit (c # x)"
            using pm pw px prefix_order.trans by blast+
          moreover have "\<not> sublist target_mask x" "\<not> sublist target_webkit x"
            using ih(2) unfolding Cons s by (simp_all add: good_def)
          ultimately have "\<not> sublist target_mask (c # x)" "\<not> sublist target_webkit (c # x)"
            by (simp_all add: not_sublist_Cons)
          then have g: "good ?segs rest"
            using ih(2) unfolding Cons s by (simp add: good_def)
          have f: "src = flat ?segs rest"
            unfolding \<open>src = c # cs\<close> using ih(1) unfolding Cons s by (simp add: flat_def)
          have o: "new_content uri src = out ?segs rest"
            using nc unfolding Cons s by (simp add: out_def)
          have "nm ?segs = nm segs" "nw ?segs = nw segs"
            unfolding Cons s by (simp_all add: nm_def nw_def)
          with f g o cm cw have "src = flat ?segs rest \<and> good ?segs rest \<and>
            count_occ target_mask src = nm ?segs \<and> count_occ target_webkit src = nw ?segs \<and>
            new_content uri src = out ?segs rest"
            by simp
          then show ?thesis by blast
        qed
      qed
    qed
  qed
  from layout [of content] obtain segs rest where
    "content = flat segs rest" "good segs rest"
    "count_occ target_mask content = nm segs" "count_occ target_webkit content = nw segs"
    "new_content uri content = out segs rest" by blast
  then have "content = concat (map (\<lambda>s. fst s @ snd s) segs) @ rest \<and>
      (\<forall>s\<in>set segs. (snd s = target_mask \<or> snd s = target_webkit) \<and>
         \<not> sublist target_mask (fst s) \<and> \<not> sublist target_webkit (fst s)) \<and>
      \<not> sublist target_mask rest \<and> \<not> sublist target_webkit rest \<and>
      count_occ target_mask content = length (filter (\<lambda>s. snd s = target_mask) segs) \<and>
      count_occ target_webkit content = length (filter (\<lambda>s. snd s = target_webkit) segs) \<and>
      new_content uri content = concat (map (\<lambda>s. fst s @ inserted uri (snd s)) segs) @ rest"
    unfolding flat_def good_def nm_def nw_def out_def by simp
  then have "\<exists>segs rest.
      content = concat (map (\<lambda>s. fst s @ snd s) segs) @ rest \<and>
      (\<forall>s\<in>set segs. (snd s = target_mask \<or> snd s = target_webkit) \<and>
         \<not> sublist target_mask (fst s) \<and> \<not> sublist target_webkit (fst s)) \<and>
      \<not> sublist target_mask rest \<and> \<not> sublist target_webkit rest \<and>
      count_occ target_mask content = length (filter (\<lambda>s. snd s = target_mask) segs) \<and>
      count_occ target_webkit content = length (filter (\<lambda>s. snd s = target_webkit) segs) \<and>
      new_content uri content = concat (map (\<lambda>s. fst s @ inserted uri (snd s)) segs) @ rest"
    by blast
  with inserted_simps(1) [of uri] inserted_simps(2) [of payload] show ?thesis by blast
qed

theorem every_occurrence_replaced_witness:
  "count_occ target_mask (''a'' @ target_mask @ ''b'' @ target_mask @ ''c'' @ target_webkit) = 2 \<and>
   sq \<notin> set ''abcd'' \<and>
   inserted (data_uri ''abcd'') target_mask = replacement_mask (data_uri ''abcd'') \<and>
   (\<exists>segs rest.
      ''a'' @ target_mask @ ''b'' @ target_mask @ ''c'' @ target_webkit =
        concat (map (\<lambda>s. fst s @ snd s) segs) @ rest \<and>
      (\<forall>s\<in>set segs. (snd s = target_mask \<or> snd s = target_webkit) \<and>
         \<not> sublist target_mask (fst s) \<and> \<not> sublist target_webkit (fst s)) \<and>
      length (filter (\<lambda>s. snd s = target_mask) segs) = 2 \<and>
      new_content (data_uri ''abcd'')
          (''a'' @ target_mask @ ''b'' @ target_mask @ ''c'' @ target_webkit) =
        concat (map (\<lambda>s. fst s @ inserted (data_uri ''abcd'') (snd s)) segs) @ rest) \<and>
   new_content (data_uri ''abcd'')
       (''a'' @ target_mask @ ''b'' @ target_mask @ ''c'' @ target_webkit) =
     ''a'' @ replacement_mask (data_uri ''abcd'') @ ''b'' @ replacement_mask (data_uri ''abcd'') @
     ''c'' @ replacement_webkit (data_uri ''abcd'')"
proof -
  let ?X = "''a'' @ target_mask @ ''b'' @ target_mask @ ''c'' @ target_webkit"
  have c: "count_occ target_mask ?X = 2"
    by (simp add: target_mask_def target_webkit_def)
  have q: "sq \<notin> set ''abcd''" by simp
  have e: "new_content (data_uri ''abcd'') ?X =
     ''a'' @ replacement_mask (data_uri ''abcd'') @ ''b'' @ replacement_mask (data_uri ''abcd'') @
     ''c'' @ replacement_webkit (data_uri ''abcd'')"
    by (simp add: new_content_def target_mask_def target_webkit_def replacement_mask_def
        replacement_webkit_def data_uri_def)
  from every_occurrence_replaced [of ?X "data_uri ''abcd''" "''abcd''"] q
  have i: "inserted (data_uri ''abcd'') target_mask = replacement_mask (data_uri ''abcd'')"
    and "\<exists>segs rest.
      ?X = concat (map (\<lambda>s. fst s @ snd s) segs) @ rest \<and>
      (\<forall>s\<in>set segs. (snd s = target_mask \<or> snd s = target_webkit) \<and>
         \<not> sublist target_mask (fst s) \<and> \<not> sublist target_webkit (fst s)) \<and>
      \<not> sublist target_mask rest \<and> \<not> sublist target_webkit rest \<and>
      count_occ target_mask ?X = length (filter (\<lambda>s. snd s = target_mask) segs) \<and>
      count_occ target_webkit ?X = length (filter (\<lambda>s. snd s = target_webkit) segs) \<and>
      new_content (data_uri ''abcd'') ?X =
        concat (map (\<lambda>s. fst s @ inserted (data_uri ''abcd'') (snd s)) segs) @ rest"
    by blast+
  then obtain segs rest where
      "?X = concat (map (\<lambda>s. fst s @ snd s) segs) @ rest"
      "\<forall>s\<in>set segs. (snd s = target_mask \<or> snd s = target_webkit) \<and>
         \<not> sublist target_mask (fst s) \<and> \<not> sublist target_webkit (fst s)"
      "count_occ target_mask ?X = length (filter (\<lambda>s. snd s = target_mask) segs)"
      "new_content (data_uri ''abcd'') ?X =
        concat (map (\<lambda>s. fst s @ inserted (data_uri ''abcd'') (snd s)) segs) @ rest"
    by blast
  with c have "\<exists>segs rest.
      ?X = concat (map (\<lambda>s. fst s @ snd s) segs) @ rest \<and>
      (\<forall>s\<in>set segs. (snd s = target_mask \<or> snd s = target_webkit) \<and>
         \<not> sublist target_mask (fst s) \<and> \<not> sublist target_webkit (fst s)) \<and>
      length (filter (\<lambda>s. snd s = target_mask) segs) = 2 \<and>
      new_content (data_uri ''abcd'') ?X =
        concat (map (\<lambda>s. fst s @ inserted (data_uri ''abcd'') (snd s)) segs) @ rest"
    by metis
  with c q i e show ?thesis by blast
qed

subsection \<open>Exit status and messages\<close>

text \<open>
  Claim C8, amended. The exit status is 0 or 1. It is non-zero exactly when an input path
  is missing or an input or output fault occurs: a file that exists cannot be read as
  text, or the changed text cannot be written. A traceback is printed exactly when both
  paths exist and such a fault occurs, and then none of the messages is printed. In every
  other run exactly one message is printed: the no-change warning or the success message
  when the status is 0, the error message for the missing path otherwise.
\<close>

theorem exit_status_and_message:
  "(exit_status fs \<noteq> 0 \<longleftrightarrow>
      entries fs icons_path = None \<or> entries fs b64_path = None \<or> io_fault fs) \<and>
   (exit_status fs = 0 \<or> exit_status fs = 1) \<and>
   (tracebacks (trace_of fs) \<noteq> [] \<longleftrightarrow>
      entries fs icons_path \<noteq> None \<and> entries fs b64_path \<noteq> None \<and> io_fault fs) \<and>
   (if tracebacks (trace_of fs) \<noteq> [] then printed (trace_of fs) = []
    else \<exists>m. printed (trace_of fs) = [m] \<and>
        (if exit_status fs = 0 then m = warning_message \<or> m = success_message
         else m = (if entries fs icons_path = None then error_message icons_path
                   else error_message b64_path)))"
proof (cases fs rule: run_cases)
  case no_icons
  from run_no_icons [where fs = fs, OF no_icons] no_icons show ?thesis
    by (simp add: trace_of_def exit_status_def)
next
  case no_b64
  from run_no_b64 [where fs = fs, OF no_b64] no_b64 show ?thesis
    by (auto simp: trace_of_def exit_status_def)
next
  case (b64_fault e)
  from run_b64_fault [where fs = fs, OF b64_fault] b64_fault io_fault_simps(1) [OF b64_fault(3)]
  show ?thesis by (simp add: trace_of_def exit_status_def)
next
  case (icons_fault raw e)
  from run_icons_fault [where fs = fs, OF icons_fault] icons_fault
    io_fault_simps(2) [OF icons_fault(2,3)] text_at_entry [OF icons_fault(2)]
  show ?thesis by (simp add: trace_of_def exit_status_def)
next
  case (unchanged content raw)
  from run_unchanged [where fs = fs, OF unchanged] unchanged
    io_fault_simps(3) [OF unchanged(2,1)] text_at_entry [OF unchanged(1)]
    text_at_entry [OF unchanged(2)]
  show ?thesis by (simp add: trace_of_def exit_status_def)
next
  case (write_fault content raw e fs')
  from run_write_fault [where fs = fs, OF write_fault] write_fault
    io_fault_simps(3) [OF write_fault(2,1)] text_at_entry [OF write_fault(1)]
    text_at_entry [OF write_fault(2)]
  show ?thesis by (simp add: trace_of_def exit_status_def)
next
  case (changed content raw fs')
  from run_changed [where fs = fs, OF changed] changed
    io_fault_simps(3) [OF changed(2,1)] text_at_entry [OF changed(1)]
    text_at_entry [OF changed(2)]
  show ?thesis by (simp add: trace_of_def exit_status_def)
qed

theorem exit_status_and_message_witness:
  "entries empty_fs icons_path = None \<and>
   exit_status empty_fs \<noteq> 0 \<and>
   printed (trace_of empty_fs) = [error_message icons_path] \<and>
   entries (example_fs ''const a = 1'' ''abcd'') icons_path \<noteq> None \<and>
   entries (example_fs ''const a = 1'' ''abcd'') b64_path \<noteq> None \<and>
   \<not> io_fault (example_fs ''const a = 1'' ''abcd'') \<and>
   exit_status (example_fs ''const a = 1'' ''abcd'') = 0 \<and>
   (printed (trace_of (example_fs ''const a = 1'' ''abcd'')) = [warning_message] \<or>
    printed (trace_of (example_fs ''const a = 1'' ''abcd'')) = [success_message]) \<and>
   io_fault directory_fs \<and>
   tracebacks (trace_of directory_fs) \<noteq> [] \<and>
   exit_status directory_fs = 1 \<and>
   printed (trace_of directory_fs) = []"
proof -
  have a: "entries empty_fs icons_path = None" by (simp add: empty_fs_def)
  have b: "entries (example_fs ''const a = 1'' ''abcd'') icons_path \<noteq> None"
    "entries (example_fs ''const a = 1'' ''abcd'') b64_path \<noteq> None"
    using example_fs_reads text_at_entry by blast+
  have c: "\<not> io_fault (example_fs ''const a = 1'' ''abcd'')"
    using io_fault_simps(3) [OF example_fs_reads(2,1), of "''const a = 1''" "''abcd''"]
    by (simp add: example_fs_put)
  have d: "io_fault directory_fs"
    using io_fault_simps(2) [OF directory_fs_facts(3,4)] .
  from exit_status_and_message [of empty_fs] a
  have 1: "exit_status empty_fs \<noteq> 0 \<and> printed (trace_of empty_fs) = [error_message icons_path]"
    by (auto split: if_splits)
  from exit_status_and_message [of "example_fs ''const a = 1'' ''abcd''"] b c
  have 2: "exit_status (example_fs ''const a = 1'' ''abcd'') = 0 \<and>
    (printed (trace_of (example_fs ''const a = 1'' ''abcd'')) = [warning_message] \<or>
     printed (trace_of (example_fs ''const a = 1'' ''abcd'')) = [success_message])"
    by (auto split: if_splits)
  from exit_status_and_message [of directory_fs] d directory_fs_facts(1,2)
  have 3: "tracebacks (trace_of directory_fs) \<noteq> [] \<and> exit_status directory_fs = 1 \<and>
    printed (trace_of directory_fs) = []"
    by (auto split: if_splits)
  from a b c d 1 2 3 show ?thesis by blast
qed

theorem exit_status_and_message_counterexample:
  "entries directory_fs icons_path \<noteq> None \<and>
   entries directory_fs b64_path \<noteq> None \<and>
   exit_status directory_fs = 1 \<and>
   printed (trace_of directory_fs) = [] \<and>
   trace_of directory_fs =
     [PathExists icons_path, PathExists b64_path, Read b64_path, Read icons_path,
      Traceback IsADirectoryError]"
  using run_icons_fault [OF directory_fs_facts(1,3,4)] directory_fs_facts(1,2)
  by (simp add: exit_status_def trace_of_def)

subsection \<open>When the icons file is written\<close>

text \<open>
  Claim C9. When both files are readable as text, a write is issued exactly when the
  source text contains at least one of the two targets. In that case the new text differs
  from the source text and the one write is that of the new text through the icons path;
  when the write succeeds, the icons file holds the new text afterwards and the success
  message is printed. Otherwise the text is unchanged, the file system is as it was and
  the warning is printed. A replacement string never equals its target. This holds for
  every payload.
\<close>

theorem write_iff_target_occurs:
  assumes "text_at fs icons_path = Inr content" "text_at fs b64_path = Inr raw"
  shows "(written (trace_of fs) \<noteq> [] \<longleftrightarrow>
            sublist target_mask content \<or> sublist target_webkit content) \<and>
         (sublist target_mask content \<or> sublist target_webkit content \<longrightarrow>
            new_content (data_uri (strip raw)) content \<noteq> content \<and>
            written (trace_of fs) = [icons_path] \<and>
            written_texts (trace_of fs) = [new_content (data_uri (strip raw)) content]) \<and>
         ((sublist target_mask content \<or> sublist target_webkit content) \<and>
          fst (put_text fs icons_path (new_content (data_uri (strip raw)) content)) = None \<longrightarrow>
            text_at (files_after fs) icons_path =
              Inr (new_content (data_uri (strip raw)) content) \<and>
            printed (trace_of fs) = [success_message]) \<and>
         (\<not> (sublist target_mask content \<or> sublist target_webkit content) \<longrightarrow>
            new_content (data_uri (strip raw)) content = content \<and>
            files_after fs = fs \<and>
            printed (trace_of fs) = [warning_message]) \<and>
         replacement_mask (data_uri (strip raw)) \<noteq> target_mask \<and>
         replacement_webkit (data_uri (strip raw)) \<noteq> target_webkit"
proof (cases "sublist target_mask content \<or> sublist target_webkit content")
  case True
  let ?new = "new_content (data_uri (strip raw)) content"
  from True have ne: "?new \<noteq> content" by (rule new_content_present)
  obtain r fs' where p: "put_text fs icons_path ?new = (r, fs')"
    by (cases "put_text fs icons_path ?new")
  show ?thesis
  proof (cases r)
    case None
    from run_changed [where fs = fs, OF assms ne p [unfolded None]]
      put_text_ok [OF p [unfolded None] assms(1)] True ne tokens_neq p None
    show ?thesis by (simp add: trace_of_def files_after_def)
  next
    case (Some e)
    from run_write_fault [where fs = fs, OF assms ne p [unfolded Some]] True ne tokens_neq p Some
    show ?thesis by (simp add: trace_of_def files_after_def)
  qed
next
  case False
  then have e: "new_content (data_uri (strip raw)) content = content"
    by (simp add: new_content_absent)
  from run_unchanged [where fs = fs, OF assms e] False e tokens_neq show ?thesis
    by (simp add: trace_of_def files_after_def)
qed

theorem write_iff_target_occurs_witness:
  "text_at (example_fs plain_source ''abcd'') icons_path = Inr plain_source \<and>
   text_at (example_fs plain_source ''abcd'') b64_path = Inr ''abcd'' \<and>
   sublist target_mask plain_source \<and>
   fst (put_text (example_fs plain_source ''abcd'') icons_path
          (new_content (data_uri (strip ''abcd'')) plain_source)) = None \<and>
   written (trace_of (example_fs plain_source ''abcd'')) = [icons_path] \<and>
   text_at (files_after (example_fs plain_source ''abcd'')) icons_path =
     Inr (new_content (data_uri (strip ''abcd'')) plain_source) \<and>
   printed (trace_of (example_fs plain_source ''abcd'')) = [success_message] \<and>
   text_at (example_fs ''const a = 1'' ''abcd'') icons_path = Inr ''const a = 1'' \<and>
   text_at (example_fs ''const a = 1'' ''abcd'') b64_path = Inr ''abcd'' \<and>
   \<not> (sublist target_mask ''const a = 1'' \<or> sublist target_webkit ''const a = 1'') \<and>
   written (trace_of (example_fs ''const a = 1'' ''abcd'')) = [] \<and>
   printed (trace_of (example_fs ''const a = 1'' ''abcd'')) = [warning_message]"
proof -
  have n: "\<not> (sublist target_mask ''const a = 1'' \<or> sublist target_webkit ''const a = 1'')"
    by (simp add: target_mask_def target_webkit_def sublist_code)
  have w: "fst (put_text (example_fs plain_source ''abcd'') icons_path
          (new_content (data_uri (strip ''abcd'')) plain_source)) = None"
    by (simp add: example_fs_put)
  from write_iff_target_occurs
      [of "example_fs plain_source ''abcd''" plain_source "''abcd''", OF example_fs_reads]
    write_iff_target_occurs
      [of "example_fs ''const a = 1'' ''abcd''" "''const a = 1''" "''abcd''", OF example_fs_reads]
    plain_sublist n w example_fs_reads
  show ?thesis by blast
qed

subsection \<open>The payload file is only read\<close>

text \<open>
  Claim C10, amended. No run writes through the payload path: every write of a run is
  through the icons path. The directory entries are as they were, and every file other
  than the one the icons path names holds after the run what it held before. So the
  payload file is unchanged whenever the payload path and the icons path do not name the
  same file.
\<close>

theorem payload_file_read_only:
  "b64_path \<notin> set (written (trace_of fs)) \<and>
   (\<forall>p\<in>set (written (trace_of fs)). p = icons_path) \<and>
   entries (files_after fs) = entries fs \<and>
   (\<forall>i. entries fs icons_path \<noteq> Some i \<longrightarrow> store (files_after fs) i = store fs i) \<and>
   (entries fs b64_path \<noteq> entries fs icons_path \<longrightarrow>
      text_at (files_after fs) b64_path = text_at fs b64_path)"
proof (cases fs rule: run_cases)
  case no_icons
  from run_no_icons [where fs = fs, OF no_icons] show ?thesis
    by (simp add: trace_of_def files_after_def)
next
  case no_b64
  from run_no_b64 [where fs = fs, OF no_b64] show ?thesis
    by (simp add: trace_of_def files_after_def)
next
  case (b64_fault e)
  from run_b64_fault [where fs = fs, OF b64_fault] show ?thesis
    by (simp add: trace_of_def files_after_def)
next
  case (icons_fault raw e)
  from run_icons_fault [where fs = fs, OF icons_fault] show ?thesis
    by (simp add: trace_of_def files_after_def)
next
  case (unchanged content raw)
  from run_unchanged [where fs = fs, OF unchanged] show ?thesis
    by (simp add: trace_of_def files_after_def)
next
  case (write_fault content raw e fs')
  from run_write_fault [where fs = fs, OF write_fault] paths_distinct
    put_text_entries [OF write_fault(4)] put_text_other [OF write_fault(4)]
    text_at_other [OF write_fault(4), of b64_path]
  show ?thesis by (simp add: trace_of_def files_after_def)
next
  case (changed content raw fs')
  from run_changed [where fs = fs, OF changed] paths_distinct
    put_text_entries [OF changed(4)] put_text_other [OF changed(4)]
    text_at_other [OF changed(4), of b64_path]
  show ?thesis by (simp add: trace_of_def files_after_def)
qed

theorem payload_file_read_only_witness:
  "written (trace_of (example_fs plain_source ''abcd'')) = [icons_path] \<and>
   icons_path \<in> set (written (trace_of (example_fs plain_source ''abcd''))) \<and>
   b64_path \<noteq> icons_path \<and>
   entries (example_fs plain_source ''abcd'') icons_path \<noteq> Some 1 \<and>
   store (files_after (example_fs plain_source ''abcd'')) 1 = File (Some ''abcd'') True True \<and>
   entries (example_fs plain_source ''abcd'') b64_path \<noteq>
     entries (example_fs plain_source ''abcd'') icons_path \<and>
   text_at (files_after (example_fs plain_source ''abcd'')) b64_path = Inr ''abcd''"
proof -
  let ?fs = "example_fs plain_source ''abcd''"
  have w: "written (trace_of ?fs) = [icons_path]"
    by (simp add: trace_of_def example_run_changed)
  have i: "entries ?fs icons_path \<noteq> Some 1"
    using paths_distinct by (simp add: example_fs_def)
  have s: "store ?fs 1 = File (Some ''abcd'') True True" by (simp add: example_fs_def)
  have d: "entries ?fs b64_path \<noteq> entries ?fs icons_path"
    using example_fs_entries [of plain_source "''abcd''"] by simp
  from payload_file_read_only [of ?fs] w i s d paths_distinct example_fs_reads(2) [of plain_source "''abcd''"]
  show ?thesis by auto
qed

theorem payload_file_read_only_counterexample:
  "text_at linked_fs b64_path = Inr target_mask \<and>
   written (trace_of linked_fs) = [icons_path] \<and>
   text_at (files_after linked_fs) b64_path =
     Inr (new_content (data_uri (strip target_mask)) target_mask) \<and>
   new_content (data_uri (strip target_mask)) target_mask \<noteq> target_mask"
proof -
  let ?new = "new_content (data_uri (strip target_mask)) target_mask"
  have ne: "?new \<noteq> target_mask" by (rule new_content_present) simp
  have p: "put_text linked_fs icons_path ?new =
        (None, linked_fs\<lparr>store := (store linked_fs)(0 := File (Some ?new) True True)\<rparr>)"
    using paths_distinct by (simp add: put_text_def linked_fs_def)
  from run_changed [OF linked_fs_reads ne p]
  have "written (trace_of linked_fs) = [icons_path]"
    "files_after linked_fs = linked_fs\<lparr>store := (store linked_fs)(0 := File (Some ?new) True True)\<rparr>"
    by (simp_all add: trace_of_def files_after_def)
  moreover have "text_at (linked_fs\<lparr>store := (store linked_fs)(0 := File (Some ?new) True True)\<rparr>)
      b64_path = Inr ?new"
    using paths_distinct by (simp add: text_at_def linked_fs_def)
  ultimately show ?thesis using linked_fs_reads(2) ne by simp
qed

end
